theory Spec2Isabelle
  imports Complex_Main "HOL-Library.AList"
begin

section \<open>Numbers\<close>

text \<open>
  The repository computes on JavaScript numbers. For the time value and the colour
  logic they are modelled as the real numbers they denote (no NaN, no infinities, no
  binary rounding); where the source guards a division, the model divides with
  \<open>js_div\<close>, whose result \<open>None\<close> records that a division by zero was evaluated. The
  Black-Scholes functions, which divide and take logarithms and roots unguarded, compute
  on numbers with the special values (see \<open>jsnum\<close> below).
\<close>

definition js_div :: "real \<Rightarrow> real \<Rightarrow> real option" where
  "js_div a b = (if b = 0 then None else Some (a / b))"

text \<open>
  \<open>parseFloat(x.toFixed(2))\<close>: the multiple of 1/100 nearest to \<open>x\<close>; of two equally
  near ones \<open>toFixed\<close> takes the larger for \<open>x \<ge> 0\<close> and, working on \<open>-x\<close> with
  the sign put back, the smaller for \<open>x < 0\<close>.
\<close>

definition toFixed2 :: "real \<Rightarrow> real" where
  "toFixed2 x =
     (if x < 0 then - (of_int \<lfloor>- x * 100 + 1 / 2\<rfloor> / 100)
      else of_int \<lfloor>x * 100 + 1 / 2\<rfloor> / 100)"

section \<open>Options pricing (utils/optionsPricing.ts)\<close>

datatype optionType = CE | PE

definition calculateTimeValue :: "real \<Rightarrow> real \<Rightarrow> real \<Rightarrow> optionType \<Rightarrow> real" where
  "calculateTimeValue optionPremium spotPrice strikePrice optType =
     (let intrinsicValue =
            (if optType = CE then max 0 (spotPrice - strikePrice)
             else max 0 (strikePrice - spotPrice));
          timeValue = max 0 (optionPremium - intrinsicValue)
      in toFixed2 timeValue)"

subsection \<open>JavaScript numbers with their special values\<close>

text \<open>
  The Black-Scholes functions divide, take logarithms and square roots, and compare; on a zero
  divisor or an argument out of range JavaScript goes on with \<open>Infinity\<close>, \<open>-Infinity\<close>
  or \<open>NaN\<close>, and every comparison with \<open>NaN\<close> is false. For these functions a number is
  therefore a \<open>jsnum\<close>: a real, or one of the three special values, with the IEEE 754
  rules for them. What is left out is binary rounding, overflow to an infinity, and the
  sign of zero (a zero is \<open>+0\<close>, so \<open>x / 0\<close> has the sign of \<open>x\<close>).
\<close>

datatype jsnum = Num real | PInf | NInf | NaN

instantiation jsnum :: "{plus, uminus, minus, times, inverse, abs, ord}"
begin

fun uminus_jsnum :: "jsnum \<Rightarrow> jsnum" where
  "uminus_jsnum (Num x) = Num (- x)"
| "uminus_jsnum PInf = NInf"
| "uminus_jsnum NInf = PInf"
| "uminus_jsnum NaN = NaN"

fun plus_jsnum :: "jsnum \<Rightarrow> jsnum \<Rightarrow> jsnum" where
  "plus_jsnum (Num x) (Num y) = Num (x + y)"
| "plus_jsnum NaN b = NaN"
| "plus_jsnum a NaN = NaN"
| "plus_jsnum PInf NInf = NaN"
| "plus_jsnum NInf PInf = NaN"
| "plus_jsnum PInf b = PInf"
| "plus_jsnum a PInf = PInf"
| "plus_jsnum NInf b = NInf"
| "plus_jsnum a NInf = NInf"

definition minus_jsnum :: "jsnum \<Rightarrow> jsnum \<Rightarrow> jsnum" where
  "minus_jsnum a b = a + (- b)"

text \<open>The sign of a number that is not \<open>NaN\<close>: 1, 0 or -1.\<close>

fun jsSign :: "jsnum \<Rightarrow> int" where
  "jsSign (Num x) = (if x > 0 then 1 else if x < 0 then - 1 else 0)"
| "jsSign PInf = 1"
| "jsSign NInf = - 1"
| "jsSign NaN = 0"

definition jsInf :: "int \<Rightarrow> jsnum" where
  "jsInf sign = (if sign > 0 then PInf else if sign < 0 then NInf else NaN)"

fun times_jsnum :: "jsnum \<Rightarrow> jsnum \<Rightarrow> jsnum" where
  "times_jsnum (Num x) (Num y) = Num (x * y)"
| "times_jsnum NaN b = NaN"
| "times_jsnum a NaN = NaN"
| "times_jsnum a b = jsInf (jsSign a * jsSign b)"

fun divide_jsnum :: "jsnum \<Rightarrow> jsnum \<Rightarrow> jsnum" where
  "divide_jsnum (Num x) (Num y) =
     (if y \<noteq> 0 then Num (x / y) else jsInf (jsSign (Num x)))"
| "divide_jsnum NaN b = NaN"
| "divide_jsnum a NaN = NaN"
| "divide_jsnum (Num x) b = Num 0"
| "divide_jsnum a (Num y) = jsInf (jsSign a * (if y < 0 then - 1 else 1))"
| "divide_jsnum a b = NaN"

definition inverse_jsnum :: "jsnum \<Rightarrow> jsnum" where
  "inverse_jsnum a = divide (Num 1) a"

fun abs_jsnum :: "jsnum \<Rightarrow> jsnum" where
  "abs_jsnum (Num x) = Num \<bar>x\<bar>"
| "abs_jsnum PInf = PInf"
| "abs_jsnum NInf = PInf"
| "abs_jsnum NaN = NaN"

fun less_jsnum :: "jsnum \<Rightarrow> jsnum \<Rightarrow> bool" where
  "less_jsnum (Num x) (Num y) = (x < y)"
| "less_jsnum NaN b = False"
| "less_jsnum a NaN = False"
| "less_jsnum a NInf = False"
| "less_jsnum PInf b = False"
| "less_jsnum a b = True"

fun less_eq_jsnum :: "jsnum \<Rightarrow> jsnum \<Rightarrow> bool" where
  "less_eq_jsnum (Num x) (Num y) = (x \<le> y)"
| "less_eq_jsnum NaN b = False"
| "less_eq_jsnum a NaN = False"
| "less_eq_jsnum NInf b = True"
| "less_eq_jsnum a PInf = True"
| "less_eq_jsnum a b = False"

instance ..

end

fun Math_log :: "jsnum \<Rightarrow> jsnum" where
  "Math_log (Num x) = (if x > 0 then Num (ln x) else if x = 0 then NInf else NaN)"
| "Math_log PInf = PInf"
| "Math_log NInf = NaN"
| "Math_log NaN = NaN"

fun Math_sqrt :: "jsnum \<Rightarrow> jsnum" where
  "Math_sqrt (Num x) = (if x \<ge> 0 then Num (sqrt x) else NaN)"
| "Math_sqrt PInf = PInf"
| "Math_sqrt NInf = NaN"
| "Math_sqrt NaN = NaN"

fun Math_exp :: "jsnum \<Rightarrow> jsnum" where
  "Math_exp (Num x) = Num (exp x)"
| "Math_exp PInf = PInf"
| "Math_exp NInf = Num 0"
| "Math_exp NaN = NaN"

fun isNaN :: "jsnum \<Rightarrow> bool" where
  "isNaN NaN = True"
| "isNaN a = False"

definition Math_max :: "jsnum \<Rightarrow> jsnum \<Rightarrow> jsnum" where
  "Math_max a b = (if isNaN a \<or> isNaN b then NaN else if a < b then b else a)"

definition Math_min :: "jsnum \<Rightarrow> jsnum \<Rightarrow> jsnum" where
  "Math_min a b = (if isNaN a \<or> isNaN b then NaN else if b < a then b else a)"

text \<open>\<open>parseFloat(x.toFixed(2))\<close> on a \<open>jsnum\<close>: \<open>toFixed\<close> prints a special value by its
  name and \<open>parseFloat\<close> reads it back.\<close>

fun jsToFixed2 :: "jsnum \<Rightarrow> jsnum" where
  "jsToFixed2 (Num x) = Num (toFixed2 x)"
| "jsToFixed2 a = a"

subsection \<open>Black-Scholes price and implied volatility\<close>

datatype callPut = Call | Put

definition normalCDF :: "jsnum \<Rightarrow> jsnum" where
  "normalCDF x =
     (let t = Num 1 / (Num 1 + Num 0.2316419 * \<bar>x\<bar>);
          d = Num 0.3989423 * Math_exp (- x * x / Num 2);
          probability =
            d * t *
            (Num 0.3193815 +
             t * (Num (- 0.3565638) +
                  t * (Num 1.781478 + t * (Num (- 1.821256) + t * Num 1.330274))))
      in if Num 0 < x then Num 1 - probability else probability)"

text \<open>The expression for \<open>d1\<close>, which the source writes out in \<open>blackScholes\<close> and again in
  the solver's loop.\<close>

definition bs_d1 :: "jsnum \<Rightarrow> jsnum \<Rightarrow> jsnum \<Rightarrow> jsnum \<Rightarrow> jsnum \<Rightarrow> jsnum" where
  "bs_d1 spotPrice strikePrice timeToExpiry volatility riskFreeRate =
     (Math_log (spotPrice / strikePrice) +
      (riskFreeRate + (volatility * volatility) / Num 2) * timeToExpiry) /
     (volatility * Math_sqrt timeToExpiry)"

definition blackScholes ::
  "jsnum \<Rightarrow> jsnum \<Rightarrow> jsnum \<Rightarrow> jsnum \<Rightarrow> jsnum \<Rightarrow> callPut \<Rightarrow> jsnum" where
  "blackScholes spotPrice strikePrice timeToExpiry volatility riskFreeRate optType =
     (let d1 = bs_d1 spotPrice strikePrice timeToExpiry volatility riskFreeRate;
          d2 = d1 - volatility * Math_sqrt timeToExpiry
      in if optType = Call then
           spotPrice * normalCDF d1 -
           strikePrice * Math_exp (- riskFreeRate * timeToExpiry) * normalCDF d2
         else
           strikePrice * Math_exp (- riskFreeRate * timeToExpiry) * normalCDF (- d2) -
           spotPrice * normalCDF (- d1))"

text \<open>
  \<open>calculateImpliedVolatility\<close>: the \<open>for\<close> loop of at most 100 Newton-Raphson steps,
  as a recursion on the number of iterations left. Both exits of the source (the
  tolerance test and the end of the loop, reached also by \<open>break\<close>) return
  \<open>parseFloat((volatility * 100).toFixed(2))\<close>, so \<open>iv_loop\<close> returns the volatility
  at the exit and \<open>calculateImpliedVolatility\<close> scales and rounds it. With a \<open>NaN\<close>
  price both tests of the loop are false and the clamp, \<open>Math.max\<close> of \<open>Math.min\<close>,
  gives \<open>NaN\<close>.
\<close>

fun iv_loop ::
  "nat \<Rightarrow> jsnum \<Rightarrow> jsnum \<Rightarrow> jsnum \<Rightarrow> jsnum \<Rightarrow> jsnum \<Rightarrow> callPut \<Rightarrow> jsnum \<Rightarrow> jsnum" where
  "iv_loop 0 marketPrice spotPrice strikePrice timeToExpiry riskFreeRate optType volatility =
     volatility"
| "iv_loop (Suc n) marketPrice spotPrice strikePrice timeToExpiry riskFreeRate optType volatility =
     (let price = blackScholes spotPrice strikePrice timeToExpiry volatility riskFreeRate optType;
          diff = marketPrice - price
      in if \<bar>diff\<bar> < Num 0.0001 then volatility
         else
           (let d1 = bs_d1 spotPrice strikePrice timeToExpiry volatility riskFreeRate;
                vega = spotPrice * normalCDF d1 * Math_sqrt timeToExpiry
            in if vega < Num 0.0001 then volatility
               else iv_loop n marketPrice spotPrice strikePrice timeToExpiry riskFreeRate optType
                      (Math_max (Num 0.01)
                         (Math_min (volatility + diff / (vega * Num 100)) (Num 5.0)))))"

definition calculateImpliedVolatility ::
  "jsnum \<Rightarrow> jsnum \<Rightarrow> jsnum \<Rightarrow> jsnum \<Rightarrow> jsnum \<Rightarrow> callPut \<Rightarrow> jsnum" where
  "calculateImpliedVolatility marketPrice spotPrice strikePrice timeToExpiry riskFreeRate optType =
     jsToFixed2
       (iv_loop 100 marketPrice spotPrice strikePrice timeToExpiry riskFreeRate optType (Num 0.3) *
        Num 100)"

text \<open>The value of \<open>probability\<close> in \<open>normalCDF\<close> at a real argument.\<close>

definition cdfTail :: "real \<Rightarrow> real" where
  "cdfTail x =
     (let t = 1 / (1 + 0.2316419 * \<bar>x\<bar>)
      in 0.3989423 * exp (- x * x / 2) * t *
         (0.3193815 +
          t * (- 0.3565638 + t * (1.781478 + t * (- 1.821256 + t * 1.330274)))))"

section \<open>Option chain colours (utils/optionChain.utils.ts)\<close>

text \<open>The required fields of \<open>StrikeData\<close>; the optional last-price and order-book
  fields play no part in the colour logic.\<close>

record StrikeData =
  strikePrice :: real
  ceOI :: real
  ceOIChange :: real
  ceVolume :: real
  peOI :: real
  peOIChange :: real
  peVolume :: real

definition findHighestVolumes :: "StrikeData list \<Rightarrow> real \<times> real" where
  "findHighestVolumes strikes =
     fold (\<lambda>strike (highestCEVolume, highestPEVolume).
             (if ceVolume strike > highestCEVolume then ceVolume strike else highestCEVolume,
              if peVolume strike > highestPEVolume then peVolume strike else highestPEVolume))
          strikes (0, 0)"

definition findHighestOI :: "StrikeData list \<Rightarrow> real \<times> real" where
  "findHighestOI strikes =
     fold (\<lambda>strike (highestCEOI, highestPEOI).
             (if ceOI strike > highestCEOI then ceOI strike else highestCEOI,
              if peOI strike > highestPEOI then peOI strike else highestPEOI))
          strikes (0, 0)"

definition calculateVolumeColor :: "real \<Rightarrow> real \<Rightarrow> real \<Rightarrow> bool \<Rightarrow> string option" where
  "calculateVolumeColor volume previousVolume highestVolume isCE =
     (let isHighest = (volume = highestVolume \<and> highestVolume > 0);
          threshold = 0.7
      in case (if previousVolume > 0
               then map_option (\<lambda>q. q \<ge> threshold)
                      (js_div (volume - previousVolume) previousVolume)
               else Some False) of
           None \<Rightarrow> None
         | Some isRising \<Rightarrow>
             Some (if isHighest then (if isCE then ''#4caf50'' else ''#f44336'')
                   else if isRising then (if isCE then ''#c8e6c9'' else ''#ffcdd2'')
                   else ''transparent''))"

record OIColorResult =
  color :: string
  shouldFade :: bool

definition calculateOIColor :: "real \<Rightarrow> real \<Rightarrow> real \<Rightarrow> bool \<Rightarrow> OIColorResult option" where
  "calculateOIColor oi previousOI highestOI isCE =
     (let isHighest = (oi = highestOI \<and> highestOI > 0);
          threshold = 0.6
      in if previousOI = 0 then
           (if isHighest
            then Some \<lparr>color = (if isCE then ''#4caf50'' else ''#f44336''), shouldFade = False\<rparr>
            else Some \<lparr>color = ''transparent'', shouldFade = False\<rparr>)
         else
           (case js_div (oi - previousOI) previousOI of
              None \<Rightarrow> None
            | Some changePercent \<Rightarrow>
                (let isIncreasing = (changePercent \<ge> threshold);
                     isDecreasing = (changePercent \<le> - threshold)
                 in if isHighest then
                      Some \<lparr>color = (if isCE then ''#4caf50'' else ''#f44336''),
                            shouldFade = False\<rparr>
                    else if isIncreasing then
                      Some \<lparr>color = (if isCE then ''#c8e6c9'' else ''#f8bbd0''),
                            shouldFade = False\<rparr>
                    else if isDecreasing then
                      Some \<lparr>color = ''#ffeb3b'', shouldFade = True\<rparr>
                    else Some \<lparr>color = ''transparent'', shouldFade = False\<rparr>)))"

section \<open>The enrichment loop of the poller: colours (services/marketDataPoller.ts)\<close>

text \<open>
  \<open>a || b\<close> on numbers, where \<open>a\<close> may be missing (\<open>previousStrike?.ceVolume\<close> with no
  previous strike): \<open>b\<close> when \<open>a\<close> is missing or zero.
\<close>

definition js_or :: "real option \<Rightarrow> real \<Rightarrow> real" where
  "js_or a b = (case a of None \<Rightarrow> b | Some v \<Rightarrow> if v = 0 then b else v)"

record ColorFlags =
  ceVolumeColor :: string
  peVolumeColor :: string
  ceOIColor :: string
  peOIColor :: string
  ceShouldFadeOI :: bool
  peShouldFadeOI :: bool

text \<open>
  The colour part of the callback of \<open>filteredStrikes.map\<close> in \<open>fetchAndBroadcast\<close>.
  \<open>previousData\<close> is the \<open>strikes\<close> list of the snapshot that \<open>getPrevious\<close>
  returned, \<open>None\<close> when it returned null. The result is \<open>None\<close> when a colour
  computation divided by zero.
\<close>

definition enrichStrike ::
  "StrikeData list option \<Rightarrow> real \<Rightarrow> real \<Rightarrow> real \<Rightarrow> real \<Rightarrow> StrikeData \<Rightarrow> ColorFlags option" where
  "enrichStrike previousData highestCEVolume highestPEVolume highestCEOI highestPEOI strike =
     (let previousStrike =
            (case previousData of
               None \<Rightarrow> None
             | Some strikes \<Rightarrow> List.find (\<lambda>s. strikePrice s = strikePrice strike) strikes);
          previousCEVolume = js_or (map_option ceVolume previousStrike) (ceVolume strike);
          previousPEVolume = js_or (map_option peVolume previousStrike) (peVolume strike);
          previousCEOI = js_or (map_option ceOI previousStrike) (ceOI strike);
          previousPEOI = js_or (map_option peOI previousStrike) (peOI strike)
      in case calculateVolumeColor (ceVolume strike) previousCEVolume highestCEVolume True of
           None \<Rightarrow> None
         | Some ceVC \<Rightarrow>
       (case calculateVolumeColor (peVolume strike) previousPEVolume highestPEVolume False of
           None \<Rightarrow> None
         | Some peVC \<Rightarrow>
       (case calculateOIColor (ceOI strike) previousCEOI highestCEOI True of
           None \<Rightarrow> None
         | Some ceOIResult \<Rightarrow>
       (case calculateOIColor (peOI strike) previousPEOI highestPEOI False of
           None \<Rightarrow> None
         | Some peOIResult \<Rightarrow>
             Some \<lparr>ceVolumeColor = ceVC, peVolumeColor = peVC,
                   ceOIColor = color ceOIResult, peOIColor = color peOIResult,
                   ceShouldFadeOI = shouldFade ceOIResult,
                   peShouldFadeOI = shouldFade peOIResult\<rparr>))))"

definition enrichedStrikes :: "StrikeData list \<Rightarrow> StrikeData list option \<Rightarrow> ColorFlags list option" where
  "enrichedStrikes filteredStrikes previousData =
     (let (highestCEVolume, highestPEVolume) = findHighestVolumes filteredStrikes;
          (highestCEOI, highestPEOI) = findHighestOI filteredStrikes
      in those (map (enrichStrike previousData highestCEVolume highestPEVolume
                       highestCEOI highestPEOI) filteredStrikes))"


section \<open>Snapshot caches\<close>

text \<open>
  A cache entry holds \<open>Date.now()\<close> and a deep clone of the payload
  (\<open>JSON.parse(JSON.stringify(data))\<close>). Payloads are values of JSON, which the clone
  returns unchanged, so an entry holds the payload itself; the clock is an argument.
\<close>

record 'a CacheEntry =
  timestamp :: nat
  cached :: 'a

subsection \<open>The in-process cache (cache/optionChainCache.ts)\<close>

type_synonym 'a OptionChainCache = "string \<rightharpoonup> 'a CacheEntry list"

definition MAX_ENTRIES :: nat where
  "MAX_ENTRIES = 3"

definition getCacheKey :: "string \<Rightarrow> string \<Rightarrow> string" where
  "getCacheKey symb expiryDate = symb @ ''_'' @ expiryDate"

definition store :: "string \<Rightarrow> string \<Rightarrow> 'a \<Rightarrow> nat \<Rightarrow> 'a OptionChainCache \<Rightarrow> 'a OptionChainCache" where
  "store symb expiryDate payload now cache =
     (let key = getCacheKey symb expiryDate;
          entries = (case cache key of None \<Rightarrow> [] | Some es \<Rightarrow> es);
          pushed = entries @ [\<lparr>timestamp = now, cached = payload\<rparr>];
          kept = (if length pushed > MAX_ENTRIES then tl pushed else pushed)
      in cache(key \<mapsto> kept))"

definition getPrevious :: "string \<Rightarrow> string \<Rightarrow> 'a OptionChainCache \<Rightarrow> 'a option" where
  "getPrevious symb expiryDate cache =
     (let key = getCacheKey symb expiryDate;
          entries = (case cache key of None \<Rightarrow> [] | Some es \<Rightarrow> es)
      in if length entries \<ge> 2 then Some (cached (entries ! (length entries - 2)))
         else None)"

definition getLatest :: "string \<Rightarrow> string \<Rightarrow> 'a OptionChainCache \<Rightarrow> 'a option" where
  "getLatest symb expiryDate cache =
     (let key = getCacheKey symb expiryDate;
          entries = (case cache key of None \<Rightarrow> [] | Some es \<Rightarrow> es)
      in if length entries > 0 then Some (cached (entries ! (length entries - 1)))
         else None)"

definition getAll :: "string \<Rightarrow> string \<Rightarrow> 'a OptionChainCache \<Rightarrow> 'a CacheEntry list" where
  "getAll symb expiryDate cache =
     (case cache (getCacheKey symb expiryDate) of None \<Rightarrow> [] | Some es \<Rightarrow> es)"

definition clear :: "string \<Rightarrow> string \<Rightarrow> 'a OptionChainCache \<Rightarrow> 'a OptionChainCache" where
  "clear symb expiryDate cache = cache(getCacheKey symb expiryDate := None)"

text \<open>The operations of the cache, for running sequences of them from the empty cache.\<close>

datatype 'a cacheOp = Store string string 'a nat | Clear string string | ClearAll

fun cacheStep :: "'a cacheOp \<Rightarrow> 'a OptionChainCache \<Rightarrow> 'a OptionChainCache" where
  "cacheStep (Store symb expiryDate payload now) cache = store symb expiryDate payload now cache"
| "cacheStep (Clear symb expiryDate) cache = clear symb expiryDate cache"
| "cacheStep ClearAll cache = Map.empty"

definition cacheRun :: "'a cacheOp list \<Rightarrow> 'a OptionChainCache" where
  "cacheRun ops = fold cacheStep ops Map.empty"

subsection \<open>The Redis cache (services/redisCache.ts)\<close>

text \<open>
  The Redis server holds, per key, the JSON text of the entry list; \<open>JSON.parse\<close> of
  \<open>JSON.stringify\<close> is the identity on entry lists, so the server is a map to entry
  lists. \<open>ready\<close> is \<open>client.status === 'ready'\<close>; \<open>commandFails\<close> says that a
  command sent to the server now throws (the connection is lost, a retry limit is hit),
  which every method catches. The server's own expiry of a key after \<open>TTL_SECONDS\<close>
  is an event of the server, \<open>redisExpire\<close>.
\<close>

record 'a RedisCache =
  ready :: bool
  commandFails :: bool
  server :: "string \<rightharpoonup> 'a CacheEntry list"

definition redisCacheKey :: "string \<Rightarrow> string \<Rightarrow> string" where
  "redisCacheKey symb expiryDate = ''option_chain:'' @ symb @ ''_'' @ expiryDate"

definition redisStore :: "string \<Rightarrow> string \<Rightarrow> 'a \<Rightarrow> nat \<Rightarrow> 'a RedisCache \<Rightarrow> 'a RedisCache" where
  "redisStore symb expiryDate payload now rc =
     (if \<not> ready rc then rc
      else if commandFails rc then rc
      else
        (let key = redisCacheKey symb expiryDate;
             entries = (case server rc key of None \<Rightarrow> [] | Some es \<Rightarrow> es);
             pushed = entries @ [\<lparr>timestamp = now, cached = payload\<rparr>];
             kept = (if length pushed > MAX_ENTRIES
                     then drop (length pushed - MAX_ENTRIES) pushed else pushed)
         in rc\<lparr>server := (server rc)(key \<mapsto> kept)\<rparr>))"

definition redisGetPrevious :: "string \<Rightarrow> string \<Rightarrow> 'a RedisCache \<Rightarrow> 'a option" where
  "redisGetPrevious symb expiryDate rc =
     (if \<not> ready rc then None
      else if commandFails rc then None
      else
        (case server rc (redisCacheKey symb expiryDate) of
           None \<Rightarrow> None
         | Some entries \<Rightarrow>
             if length entries \<ge> 2 then Some (cached (entries ! (length entries - 2)))
             else None))"

definition redisGetAll :: "string \<Rightarrow> string \<Rightarrow> 'a RedisCache \<Rightarrow> 'a CacheEntry list" where
  "redisGetAll symb expiryDate rc =
     (case server rc (redisCacheKey symb expiryDate) of None \<Rightarrow> [] | Some es \<Rightarrow> es)"

definition redisExpire :: "string \<Rightarrow> 'a RedisCache \<Rightarrow> 'a RedisCache" where
  "redisExpire key rc = rc\<lparr>server := (server rc)(key := None)\<rparr>"


section \<open>The WebSocket service (services/websocket.ts)\<close>

text \<open>
  A \<open>WebSocket\<close> object is identified by a number. What the service can observe of a
  socket, and cannot control, is its \<open>readyState\<close> and whether \<open>ws.send\<close> throws;
  both are read from an environment. A JavaScript \<open>Set\<close> is the list of its members in
  insertion order, a thrown exception is the left summand of a result.
\<close>

type_synonym WebSocket = nat

datatype ReadyState = CONNECTING | OPEN | CLOSING | CLOSED

record socket =
  readyState :: ReadyState
  sendThrows :: bool

datatype exn = Exn string

datatype 'd message =
    Connected nat
  | ErrorMessage string
  | Subscribed string nat
  | Unsubscribed string nat
  | Update string 'd nat

record ClientSubscription =
  ws :: WebSocket
  subscriptions :: "string list"

record 'd WebSocketService =
  clients :: "WebSocket \<rightharpoonup> ClientSubscription"
  channelSubscribers :: "string \<rightharpoonup> WebSocket list"
  wire :: "(WebSocket \<times> 'd message) list"

definition set_add :: "'a \<Rightarrow> 'a list \<Rightarrow> 'a list" where
  "set_add x xs = (if x \<in> set xs then xs else xs @ [x])"

definition set_delete :: "'a \<Rightarrow> 'a list \<Rightarrow> 'a list" where
  "set_delete x xs = removeAll x xs"

text \<open>\<open>ws.send(text)\<close>: throws, or puts the message on the wire to that client.\<close>

definition ws_send ::
  "(WebSocket \<Rightarrow> socket) \<Rightarrow> WebSocket \<Rightarrow> 'd message \<Rightarrow> 'd WebSocketService
     \<Rightarrow> exn + 'd WebSocketService" where
  "ws_send sock w msg st =
     (if sendThrows (sock w) then Inl (Exn ''send'')
      else Inr (st\<lparr>wire := wire st @ [(w, msg)]\<rparr>))"

definition sendToClient ::
  "(WebSocket \<Rightarrow> socket) \<Rightarrow> WebSocket \<Rightarrow> 'd message \<Rightarrow> 'd WebSocketService
     \<Rightarrow> exn + (bool \<times> 'd WebSocketService)" where
  "sendToClient sock w msg st =
     (if readyState (sock w) = OPEN then
        (case ws_send sock w msg st of
           Inr st' \<Rightarrow> Inr (True, st')
         | Inl error \<Rightarrow> Inr (False, st))
      else Inr (False, st))"

text \<open>\<open>if (symbol) subscriptionKey += `:${symbol}`\<close>: a missing or empty part adds nothing.\<close>

definition keyPart :: "string option \<Rightarrow> string" where
  "keyPart part = (case part of None \<Rightarrow> [] | Some p \<Rightarrow> if p = [] then [] else '':'' @ p)"

definition subscriptionKey :: "string \<Rightarrow> string option \<Rightarrow> string option \<Rightarrow> string" where
  "subscriptionKey channel symb expiryDate = channel @ keyPart symb @ keyPart expiryDate"

definition subscribe ::
  "(WebSocket \<Rightarrow> socket) \<Rightarrow> WebSocket \<Rightarrow> string \<Rightarrow> string option \<Rightarrow> string option \<Rightarrow> nat
     \<Rightarrow> 'd WebSocketService \<Rightarrow> exn + 'd WebSocketService" where
  "subscribe sock w channel symb expiryDate now st =
     (case clients st w of
        None \<Rightarrow> Inr st
      | Some client \<Rightarrow>
          (let key = subscriptionKey channel symb expiryDate;
               st1 = st\<lparr>clients := (clients st)
                         (w \<mapsto> client\<lparr>subscriptions := set_add key (subscriptions client)\<rparr>)\<rparr>;
               subscribers = (case channelSubscribers st1 key of None \<Rightarrow> [] | Some l \<Rightarrow> l);
               st2 = st1\<lparr>channelSubscribers :=
                          (channelSubscribers st1)(key \<mapsto> set_add w subscribers)\<rparr>
           in case sendToClient sock w (Subscribed key now) st2 of
                Inl e \<Rightarrow> Inl e
              | Inr (ok, st3) \<Rightarrow> Inr st3))"

text \<open>Removing \<open>w\<close> from the subscribers of one key, the key deleted when none is left:
  the body shared by \<open>unsubscribe\<close> and the loop of \<open>removeClient\<close>.\<close>

definition dropSubscriber :: "WebSocket \<Rightarrow> string \<Rightarrow> 'd WebSocketService \<Rightarrow> 'd WebSocketService" where
  "dropSubscriber w key st =
     (case channelSubscribers st key of
        None \<Rightarrow> st
      | Some subscribers \<Rightarrow>
          (let remaining = set_delete w subscribers
           in if length remaining = 0
              then st\<lparr>channelSubscribers := (channelSubscribers st)(key := None)\<rparr>
              else st\<lparr>channelSubscribers := (channelSubscribers st)(key \<mapsto> remaining)\<rparr>))"

definition unsubscribe ::
  "(WebSocket \<Rightarrow> socket) \<Rightarrow> WebSocket \<Rightarrow> string \<Rightarrow> string option \<Rightarrow> string option \<Rightarrow> nat
     \<Rightarrow> 'd WebSocketService \<Rightarrow> exn + 'd WebSocketService" where
  "unsubscribe sock w channel symb expiryDate now st =
     (case clients st w of
        None \<Rightarrow> Inr st
      | Some client \<Rightarrow>
          (let key = subscriptionKey channel symb expiryDate;
               st1 = st\<lparr>clients := (clients st)
                         (w \<mapsto> client\<lparr>subscriptions := set_delete key (subscriptions client)\<rparr>)\<rparr>;
               st2 = dropSubscriber w key st1
           in case sendToClient sock w (Unsubscribed key now) st2 of
                Inl e \<Rightarrow> Inl e
              | Inr (ok, st3) \<Rightarrow> Inr st3))"

definition removeClient :: "WebSocket \<Rightarrow> 'd WebSocketService \<Rightarrow> 'd WebSocketService" where
  "removeClient w st =
     (case clients st w of
        None \<Rightarrow> st
      | Some client \<Rightarrow>
          (let st1 = fold (dropSubscriber w) (subscriptions client) st
           in st1\<lparr>clients := (clients st1)(w := None)\<rparr>))"

text \<open>
  \<open>broadcast\<close>: \<open>subscribers.forEach\<close> stops at the first exception its callback lets
  through, as \<open>forEachSend\<close> does. The count of successful sends is what the source logs.
\<close>

fun forEachSend ::
  "(WebSocket \<Rightarrow> socket) \<Rightarrow> 'd message \<Rightarrow> WebSocket list \<Rightarrow> nat \<times> 'd WebSocketService
     \<Rightarrow> exn + (nat \<times> 'd WebSocketService)" where
  "forEachSend sock msg [] acc = Inr acc"
| "forEachSend sock msg (w # rest) (successCount, st) =
     (case sendToClient sock w msg st of
        Inl e \<Rightarrow> Inl e
      | Inr (ok, st') \<Rightarrow>
          forEachSend sock msg rest (if ok then successCount + 1 else successCount, st'))"

definition broadcast ::
  "(WebSocket \<Rightarrow> socket) \<Rightarrow> string \<Rightarrow> 'd \<Rightarrow> nat \<Rightarrow> 'd WebSocketService
     \<Rightarrow> exn + (nat \<times> 'd WebSocketService)" where
  "broadcast sock channel payload now st =
     (case channelSubscribers st channel of
        None \<Rightarrow> Inr (0, st)
      | Some subscribers \<Rightarrow>
          if length subscribers = 0 then Inr (0, st)
          else forEachSend sock (Update channel payload now) subscribers (0, st))"

text \<open>The events the service handles: a new connection, an inbound message (\<open>None\<close>
  when \<open>JSON.parse\<close> throws on it), the close and error events of a socket.\<close>

datatype inbound =
    SubscribeMsg string "string option" "string option"
  | UnsubscribeMsg string "string option" "string option"
  | UnknownType string

datatype wsEvent =
    Connection WebSocket nat
  | MessageEvent WebSocket "inbound option" nat
  | CloseEvent WebSocket
  | ErrorEvent WebSocket

definition handleMessage ::
  "(WebSocket \<Rightarrow> socket) \<Rightarrow> WebSocket \<Rightarrow> inbound \<Rightarrow> nat \<Rightarrow> 'd WebSocketService
     \<Rightarrow> exn + 'd WebSocketService" where
  "handleMessage sock w m now st =
     (case m of
        SubscribeMsg channel symb expiryDate \<Rightarrow> subscribe sock w channel symb expiryDate now st
      | UnsubscribeMsg channel symb expiryDate \<Rightarrow> unsubscribe sock w channel symb expiryDate now st
      | UnknownType ty \<Rightarrow>
          (case sendToClient sock w (ErrorMessage (''Unknown message type: '' @ ty)) st of
             Inl e \<Rightarrow> Inl e | Inr (ok, st') \<Rightarrow> Inr st'))"

definition wsStep ::
  "(WebSocket \<Rightarrow> socket) \<Rightarrow> wsEvent \<Rightarrow> 'd WebSocketService \<Rightarrow> exn + 'd WebSocketService" where
  "wsStep sock ev st =
     (case ev of
        Connection w now \<Rightarrow>
          (case sendToClient sock w (Connected now)
                  (st\<lparr>clients := (clients st)(w \<mapsto> \<lparr>ws = w, subscriptions = []\<rparr>)\<rparr>) of
             Inl e \<Rightarrow> Inl e | Inr (ok, st') \<Rightarrow> Inr st')
      | MessageEvent w data now \<Rightarrow>
          (case (case data of
                   None \<Rightarrow> Inl (Exn ''JSON.parse'')
                 | Some m \<Rightarrow> handleMessage sock w m now st) of
             Inr st' \<Rightarrow> Inr st'
           | Inl error \<Rightarrow>
               (case sendToClient sock w (ErrorMessage ''Invalid message format'') st of
                  Inl e \<Rightarrow> Inl e | Inr (ok, st') \<Rightarrow> Inr st'))
      | CloseEvent w \<Rightarrow> Inr (removeClient w st)
      | ErrorEvent w \<Rightarrow> Inr (removeClient w st))"

definition wsInitial :: "'d WebSocketService" where
  "wsInitial = \<lparr>clients = Map.empty, channelSubscribers = Map.empty, wire = []\<rparr>"

text \<open>
  The states the service reaches. The server makes a new \<open>WebSocket\<close> object for every
  connection, so a connection event brings a socket that is not a client already; the
  environment may differ from event to event.
\<close>

inductive wsReachable :: "'d WebSocketService \<Rightarrow> bool" where
  wsInit: "wsReachable wsInitial"
| wsNext: "wsReachable st \<Longrightarrow>
           (\<And>w now. ev = Connection w now \<Longrightarrow> clients st w = None) \<Longrightarrow>
           wsStep sock ev st = Inr st' \<Longrightarrow> wsReachable st'"


text \<open>The two indices of the service, read as relations between sockets and keys, and
  the invariant that they agree and that no key maps to the empty set.\<close>

definition subscribersOf :: "'d WebSocketService \<Rightarrow> string \<Rightarrow> WebSocket set" where
  "subscribersOf st key = (case channelSubscribers st key of None \<Rightarrow> {} | Some l \<Rightarrow> set l)"

definition subscriptionsOf :: "'d WebSocketService \<Rightarrow> WebSocket \<Rightarrow> string set" where
  "subscriptionsOf st w = (case clients st w of None \<Rightarrow> {} | Some c \<Rightarrow> set (subscriptions c))"

definition wsInv :: "'d WebSocketService \<Rightarrow> bool" where
  "wsInv st \<longleftrightarrow>
     (\<forall>w key. w \<in> subscribersOf st key \<longleftrightarrow> key \<in> subscriptionsOf st w) \<and>
     (\<forall>key. channelSubscribers st key \<noteq> Some [])"

section \<open>The market data poller (services/marketDataPoller.ts)\<close>

text \<open>
  A JavaScript \<open>Map\<close> is an association list: \<open>AList.update\<close> is \<open>set\<close> (a new key
  goes last, as in the iteration order of a \<open>Map\<close>), \<open>AList.delete\<close> is \<open>delete\<close>,
  \<open>map_of\<close> is \<open>get\<close>. The runtime's table of live intervals is part of the state:
  \<open>setInterval\<close> adds the callback under a new handle, \<open>clearInterval\<close> removes it. A
  handle is an object and always truthy, so \<open>if (timerId)\<close> tests that the key is in
  \<open>pollers\<close>.

  A callback, and the run of \<open>fetchAndBroadcast\<close> or \<open>fetchAndBroadcastIV\<close> it
  starts, is a \<open>tick\<close>. A run suspends at its first \<open>await\<close> (the upstream fetch) and is
  then in flight; when it resumes it ends in \<open>websocketService.broadcast\<close> on its
  channel, unless an exception reached the outer \<open>catch\<close>. No statement between the
  fetch and the broadcast reads \<open>pollers\<close> or \<open>activePolls\<close>.
\<close>

record PollerConfig =
  symbol :: string
  expiry :: string
  interval :: nat

datatype tick = ChainTick string string | IVTick string

record MarketDataPoller =
  pollers :: "(string \<times> nat) list"
  activePolls :: "(string \<times> PollerConfig) list"
  intervals :: "(nat \<times> tick) list"
  nextHandle :: nat
  inFlight :: "tick list"
  published :: "(tick \<times> string) list"

text \<open>\<open>toUpperCase\<close> on the ASCII letters.\<close>

definition upperChar :: "char \<Rightarrow> char" where
  "upperChar c =
     (let n = (of_char c :: nat) in if 97 \<le> n \<and> n \<le> 122 then char_of (n - 32) else c)"

definition toUpperCase :: "string \<Rightarrow> string" where
  "toUpperCase str = map upperChar str"

fun tickKey :: "tick \<Rightarrow> string" where
  "tickKey (ChainTick symb expiryDate) = symb @ '':'' @ expiryDate"
| "tickKey (IVTick symb) = ''iv:'' @ symb"

fun tickChannel :: "tick \<Rightarrow> string" where
  "tickChannel (ChainTick symb expiryDate) = ''option-chain:'' @ toUpperCase symb @ '':'' @ expiryDate"
| "tickChannel (IVTick symb) = ''ivdex:'' @ toUpperCase symb"

definition setInterval :: "tick \<Rightarrow> MarketDataPoller \<Rightarrow> nat \<times> MarketDataPoller" where
  "setInterval callback s =
     (nextHandle s,
      s\<lparr>intervals := intervals s @ [(nextHandle s, callback)],
        nextHandle := Suc (nextHandle s)\<rparr>)"

definition clearInterval :: "nat \<Rightarrow> MarketDataPoller \<Rightarrow> MarketDataPoller" where
  "clearInterval timerId s = s\<lparr>intervals := AList.delete timerId (intervals s)\<rparr>"

text \<open>A call of \<open>fetchAndBroadcast\<close> (or \<open>fetchAndBroadcastIV\<close>) runs to its first
  \<open>await\<close> and returns a pending promise.\<close>

definition beginFetch :: "tick \<Rightarrow> MarketDataPoller \<Rightarrow> MarketDataPoller" where
  "beginFetch t s = s\<lparr>inFlight := inFlight s @ [t]\<rparr>"

definition stopPolling :: "string \<Rightarrow> string \<Rightarrow> MarketDataPoller \<Rightarrow> MarketDataPoller" where
  "stopPolling symb expiryDate s =
     (let key = symb @ '':'' @ expiryDate
      in case map_of (pollers s) key of
           None \<Rightarrow> s
         | Some timerId \<Rightarrow>
             (let s1 = clearInterval timerId s
              in s1\<lparr>pollers := AList.delete key (pollers s1),
                    activePolls := AList.delete key (activePolls s1)\<rparr>))"

definition startPolling :: "string \<Rightarrow> string \<Rightarrow> nat \<Rightarrow> MarketDataPoller \<Rightarrow> MarketDataPoller" where
  "startPolling symb expiryDate ival s =
     (let key = symb @ '':'' @ expiryDate;
          s1 = stopPolling symb expiryDate s;
          config = \<lparr>symbol = symb, expiry = expiryDate, interval = ival\<rparr>;
          s2 = s1\<lparr>activePolls := AList.update key config (activePolls s1)\<rparr>;
          s3 = beginFetch (ChainTick symb expiryDate) s2;
          (timerId, s4) = setInterval (ChainTick symb expiryDate) s3
      in s4\<lparr>pollers := AList.update key timerId (pollers s4)\<rparr>)"

definition stopIVPolling :: "string \<Rightarrow> MarketDataPoller \<Rightarrow> MarketDataPoller" where
  "stopIVPolling symb s =
     (let key = ''iv:'' @ symb
      in case map_of (pollers s) key of
           None \<Rightarrow> s
         | Some timerId \<Rightarrow>
             (let s1 = clearInterval timerId s
              in s1\<lparr>pollers := AList.delete key (pollers s1)\<rparr>))"

definition startIVPolling :: "string \<Rightarrow> nat \<Rightarrow> MarketDataPoller \<Rightarrow> MarketDataPoller" where
  "startIVPolling symb ival s =
     (let key = ''iv:'' @ symb;
          s1 = stopIVPolling symb s;
          s2 = beginFetch (IVTick symb) s1;
          (timerId, s3) = setInterval (IVTick symb) s2
      in s3\<lparr>pollers := AList.update key timerId (pollers s3)\<rparr>)"

definition stopAll :: "MarketDataPoller \<Rightarrow> MarketDataPoller" where
  "stopAll s =
     (let s1 = fold (\<lambda>(key, timerId). clearInterval timerId) (pollers s) s
      in s1\<lparr>pollers := [], activePolls := []\<rparr>)"

definition getActivePolls :: "MarketDataPoller \<Rightarrow> string list" where
  "getActivePolls s = map fst (activePolls s)"

text \<open>The runtime fires a live interval: its callback starts a run.\<close>

definition timerFires :: "nat \<Rightarrow> MarketDataPoller \<Rightarrow> MarketDataPoller" where
  "timerFires timerId s =
     (case map_of (intervals s) timerId of
        None \<Rightarrow> s
      | Some callback \<Rightarrow> beginFetch callback s)"

text \<open>The \<open>i\<close>-th run in flight resumes and finishes: it broadcasts on its channel, or
  (\<open>threw\<close>) an exception took it to the outer \<open>catch\<close> before the broadcast.\<close>

definition fetchCompletes :: "nat \<Rightarrow> bool \<Rightarrow> MarketDataPoller \<Rightarrow> MarketDataPoller" where
  "fetchCompletes i threw s =
     (if i < length (inFlight s) then
        (let t = inFlight s ! i;
             s1 = s\<lparr>inFlight := take i (inFlight s) @ drop (Suc i) (inFlight s)\<rparr>
         in if threw then s1
            else s1\<lparr>published := published s1 @ [(t, tickChannel t)]\<rparr>)
      else s)"

datatype pollerEvent =
    StartPolling string string nat
  | StopPolling string string
  | StartIVPolling string nat
  | StopIVPolling string
  | StopAll
  | TimerFires nat
  | FetchCompletes nat bool

fun pollerStep :: "pollerEvent \<Rightarrow> MarketDataPoller \<Rightarrow> MarketDataPoller" where
  "pollerStep (StartPolling symb expiryDate ival) s = startPolling symb expiryDate ival s"
| "pollerStep (StopPolling symb expiryDate) s = stopPolling symb expiryDate s"
| "pollerStep (StartIVPolling symb ival) s = startIVPolling symb ival s"
| "pollerStep (StopIVPolling symb) s = stopIVPolling symb s"
| "pollerStep StopAll s = stopAll s"
| "pollerStep (TimerFires timerId) s = timerFires timerId s"
| "pollerStep (FetchCompletes i threw) s = fetchCompletes i threw s"

definition pollerInitial :: MarketDataPoller where
  "pollerInitial =
     \<lparr>pollers = [], activePolls = [], intervals = [], nextHandle = 1, inFlight = [],
      published = []\<rparr>"

definition pollerRun :: "pollerEvent list \<Rightarrow> MarketDataPoller \<Rightarrow> MarketDataPoller" where
  "pollerRun events s = fold pollerStep events s"

text \<open>The live intervals whose callback polls for a key, and the broadcasts made by the
  runs of a key.\<close>

definition timersOf :: "string \<Rightarrow> MarketDataPoller \<Rightarrow> (nat \<times> tick) list" where
  "timersOf key s = filter (\<lambda>(timerId, callback). tickKey callback = key) (intervals s)"

definition publishedBy :: "string \<Rightarrow> MarketDataPoller \<Rightarrow> (tick \<times> string) list" where
  "publishedBy key s = filter (\<lambda>(t, channel). tickKey t = key) (published s)"

definition inFlightOf :: "string \<Rightarrow> MarketDataPoller \<Rightarrow> tick list" where
  "inFlightOf key s = filter (\<lambda>t. tickKey t = key) (inFlight s)"

text \<open>The calls of the IV-only variant.\<close>

fun isIVEvent :: "pollerEvent \<Rightarrow> bool" where
  "isIVEvent (StartIVPolling symb ival) = True"
| "isIVEvent (StopIVPolling symb) = True"
| "isIVEvent ev = False"


text \<open>
  The invariant of the poller: the handles in \<open>pollers\<close> are exactly the live
  intervals, each under the key its callback polls for, and a key whose interval is a
  chain callback is in \<open>activePolls\<close>. \<open>chainInv\<close> is what holds when the IV-only
  variant is not used, \<open>chainKeysInv\<close> what holds always of the keys that are not of the
  form \<open>iv:symbol\<close>; \<open>startsKey\<close> tells the calls that start a poller under a key.
\<close>

definition linked :: "(string \<rightharpoonup> nat) \<Rightarrow> (nat \<rightharpoonup> tick) \<Rightarrow> nat \<Rightarrow> bool" where
  "linked P T n \<longleftrightarrow>
     (\<forall>t cb. T t = Some cb \<longrightarrow> t < n \<and> P (tickKey cb) = Some t) \<and>
     (\<forall>key t. P key = Some t \<longrightarrow> (\<exists>cb. T t = Some cb \<and> tickKey cb = key))"

definition pollerInv :: "MarketDataPoller \<Rightarrow> bool" where
  "pollerInv s \<longleftrightarrow>
     distinct (map fst (intervals s)) \<and>
     linked (map_of (pollers s)) (map_of (intervals s)) (nextHandle s) \<and>
     (\<forall>key t symb expiryDate.
        map_of (pollers s) key = Some t \<and>
        map_of (intervals s) t = Some (ChainTick symb expiryDate) \<longrightarrow>
        key \<in> fst ` set (activePolls s))"

definition chainInv :: "MarketDataPoller \<Rightarrow> bool" where
  "chainInv s \<longleftrightarrow>
     fst ` set (activePolls s) = fst ` set (pollers s) \<and> distinct (map fst (activePolls s))"

definition chainKeysInv :: "MarketDataPoller \<Rightarrow> bool" where
  "chainKeysInv s \<longleftrightarrow>
     (\<forall>key. (\<forall>symb. key \<noteq> ''iv:'' @ symb) \<longrightarrow>
        (key \<in> fst ` set (activePolls s) \<longleftrightarrow> key \<in> fst ` set (pollers s))) \<and>
     distinct (map fst (activePolls s))"

fun startsKey :: "string \<Rightarrow> pollerEvent \<Rightarrow> bool" where
  "startsKey key (StartPolling symb expiryDate ival) = (symb @ '':'' @ expiryDate = key)"
| "startsKey key (StartIVPolling symb ival) = (''iv:'' @ symb = key)"
| "startsKey key ev = False"

section \<open>Rounding to two decimals\<close>

lemma toFixed2_error: "\<bar>toFixed2 x - x\<bar> \<le> 1 / 200"
proof -
  have fl: "\<And>y::real. \<bar>of_int \<lfloor>y + 1 / 2\<rfloor> - y\<bar> \<le> 1 / 2"
    by linarith
  show ?thesis
  proof (cases "x < 0")
    case True
    have "\<bar>of_int \<lfloor>- x * 100 + 1 / 2\<rfloor> - (- x * 100)\<bar> \<le> 1 / 2" by (rule fl)
    with True show ?thesis by (simp add: toFixed2_def abs_if split: if_splits)
  next
    case False
    have "\<bar>of_int \<lfloor>x * 100 + 1 / 2\<rfloor> - (x * 100)\<bar> \<le> 1 / 2" by (rule fl)
    with False show ?thesis by (simp add: toFixed2_def abs_if split: if_splits)
  qed
qed

lemma toFixed2_exact: "toFixed2 (of_int n / 100) = of_int n / 100"
  by (simp add: toFixed2_def)

section \<open>Time value\<close>

text \<open>
  C8 (as stated): \<open>calculateTimeValue\<close> equals \<open>max(0, premium - intrinsic)\<close> for all
  inputs. It does not: the source returns that value through \<open>toFixed(2)\<close>. A premium
  of 0.125 at the money has time value 0.125 and the function returns 0.13.
\<close>

theorem calculateTimeValue_counterexample:
  "calculateTimeValue 0.125 100 100 CE \<noteq> max 0 (0.125 - max 0 (100 - 100))"
  by (simp add: calculateTimeValue_def toFixed2_def Let_def)

text \<open>
  C8 (amended): for all premium, S and K, \<open>calculateTimeValue\<close> is
  \<open>max(0, premium - max(0, S - K))\<close> for a call and \<open>max(0, premium - max(0, K - S))\<close>
  for a put, rounded to two decimals, and so within 0.005 of that value.
\<close>

theorem calculateTimeValue_rounded:
  "calculateTimeValue premium S K CE = toFixed2 (max 0 (premium - max 0 (S - K))) \<and>
   calculateTimeValue premium S K PE = toFixed2 (max 0 (premium - max 0 (K - S))) \<and>
   \<bar>calculateTimeValue premium S K CE - max 0 (premium - max 0 (S - K))\<bar> \<le> 1 / 200 \<and>
   \<bar>calculateTimeValue premium S K PE - max 0 (premium - max 0 (K - S))\<bar> \<le> 1 / 200"
  using toFixed2_error [of "max 0 (premium - max 0 (S - K))"]
    toFixed2_error [of "max 0 (premium - max 0 (K - S))"]
  by (simp add: calculateTimeValue_def Let_def)

theorem calculateTimeValue_rounded_witness:
  "calculateTimeValue 12.346 100 95 CE = 7.35 \<and> calculateTimeValue 12.346 100 95 PE = 12.35"
  using calculateTimeValue_rounded [of "12.346" 100 95]
  by (simp add: toFixed2_def)


section \<open>Open-interest colour\<close>

text \<open>
  C5: \<open>calculateOIColor\<close> returns the strong colour with no fade when \<open>oi\<close> equals a
  positive \<open>highest\<close>, whatever the previous value; otherwise, for \<open>previous > 0\<close>, the
  lighter tint for a change of at least +60%, the decay colour with fade for a change
  of at most -60%, and neutral in between; for \<open>previous = 0\<close> only the highest check
  applies and the fade flag is false; \<open>calculateOIColor 100 0 500\<close> is neutral with no
  fade. No case divides by zero (every result is \<open>Some\<close>).
\<close>

theorem calculateOIColor_cases:
  "(oi = highest \<and> highest > 0 \<longrightarrow>
      calculateOIColor oi previous highest isCE =
        Some \<lparr>color = (if isCE then ''#4caf50'' else ''#f44336''), shouldFade = False\<rparr>) \<and>
   (\<not> (oi = highest \<and> highest > 0) \<and> previous > 0 \<and> (oi - previous) / previous \<ge> 0.6 \<longrightarrow>
      calculateOIColor oi previous highest isCE =
        Some \<lparr>color = (if isCE then ''#c8e6c9'' else ''#f8bbd0''), shouldFade = False\<rparr>) \<and>
   (\<not> (oi = highest \<and> highest > 0) \<and> previous > 0 \<and> (oi - previous) / previous \<le> - 0.6 \<longrightarrow>
      calculateOIColor oi previous highest isCE =
        Some \<lparr>color = ''#ffeb3b'', shouldFade = True\<rparr>) \<and>
   (\<not> (oi = highest \<and> highest > 0) \<and> previous > 0 \<and>
    - 0.6 < (oi - previous) / previous \<and> (oi - previous) / previous < 0.6 \<longrightarrow>
      calculateOIColor oi previous highest isCE =
        Some \<lparr>color = ''transparent'', shouldFade = False\<rparr>) \<and>
   (\<not> (oi = highest \<and> highest > 0) \<and> previous = 0 \<longrightarrow>
      calculateOIColor oi previous highest isCE =
        Some \<lparr>color = ''transparent'', shouldFade = False\<rparr>) \<and>
   (previous = 0 \<longrightarrow>
      (\<exists>c. calculateOIColor oi previous highest isCE = Some \<lparr>color = c, shouldFade = False\<rparr>)) \<and>
   calculateOIColor 100 0 500 isCE = Some \<lparr>color = ''transparent'', shouldFade = False\<rparr>"
proof -
  obtain q where q: "q = (oi - previous) / previous" by simp
  have unfolded: "previous \<noteq> 0 \<Longrightarrow> calculateOIColor oi previous highest isCE =
      (if oi = highest \<and> highest > 0 then
         Some \<lparr>color = (if isCE then ''#4caf50'' else ''#f44336''), shouldFade = False\<rparr>
       else if q \<ge> 0.6 then
         Some \<lparr>color = (if isCE then ''#c8e6c9'' else ''#f8bbd0''), shouldFade = False\<rparr>
       else if q \<le> - 0.6 then Some \<lparr>color = ''#ffeb3b'', shouldFade = True\<rparr>
       else Some \<lparr>color = ''transparent'', shouldFade = False\<rparr>)"
    unfolding q by (simp add: calculateOIColor_def js_div_def Let_def)
  have zero: "previous = 0 \<Longrightarrow> calculateOIColor oi previous highest isCE =
      (if oi = highest \<and> highest > 0 then
         Some \<lparr>color = (if isCE then ''#4caf50'' else ''#f44336''), shouldFade = False\<rparr>
       else Some \<lparr>color = ''transparent'', shouldFade = False\<rparr>)"
    by (simp add: calculateOIColor_def Let_def)
  have fixed: "calculateOIColor 100 0 500 isCE = Some \<lparr>color = ''transparent'', shouldFade = False\<rparr>"
    by (simp add: calculateOIColor_def Let_def)
  show ?thesis
    unfolding q [symmetric]
    using unfolded zero fixed by (cases "previous = 0") auto
qed

theorem calculateOIColor_cases_witness:
  "calculateOIColor 5000 1000 5000 True = Some \<lparr>color = ''#4caf50'', shouldFade = False\<rparr> \<and>
   calculateOIColor 1650 1000 5000 False = Some \<lparr>color = ''#f8bbd0'', shouldFade = False\<rparr> \<and>
   calculateOIColor 1000 2800 5000 True = Some \<lparr>color = ''#ffeb3b'', shouldFade = True\<rparr> \<and>
   calculateOIColor 1100 1000 5000 True = Some \<lparr>color = ''transparent'', shouldFade = False\<rparr> \<and>
   calculateOIColor 100 0 500 False = Some \<lparr>color = ''transparent'', shouldFade = False\<rparr>"
  using calculateOIColor_cases [of 5000 5000 1000 True]
    calculateOIColor_cases [of 1650 5000 1000 False]
    calculateOIColor_cases [of 1000 5000 2800 True]
    calculateOIColor_cases [of 1100 5000 1000 True]
    calculateOIColor_cases [of 100 500 0 False]
  by simp

section \<open>A tick with no previous snapshot\<close>

lemma those_map_Some: "those (map (\<lambda>x. Some (g x)) xs) = Some (map g xs)"
  by (induction xs) simp_all

lemma calculateVolumeColor_same:
  "calculateVolumeColor v v h isCE =
     Some (if v = h \<and> h > 0 then (if isCE then ''#4caf50'' else ''#f44336'') else ''transparent'')"
  by (simp add: calculateVolumeColor_def js_div_def Let_def)

lemma calculateOIColor_same:
  "calculateOIColor v v h isCE =
     Some \<lparr>color = (if v = h \<and> h > 0 then (if isCE then ''#4caf50'' else ''#f44336'')
                     else ''transparent''),
           shouldFade = False\<rparr>"
  by (auto simp add: calculateOIColor_def js_div_def Let_def)

lemma enrichStrike_no_history:
  "enrichStrike None hcv hpv hco hpo =
     (\<lambda>strike. Some
        \<lparr>ceVolumeColor =
           (if ceVolume strike = hcv \<and> hcv > 0 then ''#4caf50'' else ''transparent''),
         peVolumeColor =
           (if peVolume strike = hpv \<and> hpv > 0 then ''#f44336'' else ''transparent''),
         ceOIColor = (if ceOI strike = hco \<and> hco > 0 then ''#4caf50'' else ''transparent''),
         peOIColor = (if peOI strike = hpo \<and> hpo > 0 then ''#f44336'' else ''transparent''),
         ceShouldFadeOI = False,
         peShouldFadeOI = False\<rparr>)"
  by (rule ext)
    (simp add: enrichStrike_def js_or_def calculateVolumeColor_same calculateOIColor_same)

text \<open>
  C4 (as stated): with no previous snapshot every strike's volume colour and OI colour
  is transparent. It is not: without a previous strike the previous value defaults to
  the current one, and the highest check still colours the strike that holds the
  window's highest volume or OI. A window of one strike with call volume 10 and call OI
  100 gets the strong call colour for both.
\<close>

theorem enrichedStrikes_counterexample:
  "enrichedStrikes
     [\<lparr>strikePrice = 19500, ceOI = 100, ceOIChange = 0, ceVolume = 10,
       peOI = 0, peOIChange = 0, peVolume = 0\<rparr>] None =
   Some [\<lparr>ceVolumeColor = ''#4caf50'', peVolumeColor = ''transparent'',
          ceOIColor = ''#4caf50'', peOIColor = ''transparent'',
          ceShouldFadeOI = False, peShouldFadeOI = False\<rparr>]"
  by (simp add: enrichedStrikes_def enrichStrike_def findHighestVolumes_def findHighestOI_def
      js_or_def calculateVolumeColor_def calculateOIColor_def js_div_def Let_def)

text \<open>
  C4 (amended): with no previous snapshot, for every strike of the window both fade
  flags are false, no division by zero is evaluated (the result is \<open>Some\<close>), and each
  colour is transparent unless the strike's value equals the window's highest value of
  that side and that value is positive, in which case it is the strong colour of the
  side.
\<close>

theorem enrichedStrikes_no_history:
  "enrichedStrikes strikes None =
     (let (highestCEVolume, highestPEVolume) = findHighestVolumes strikes;
          (highestCEOI, highestPEOI) = findHighestOI strikes
      in Some (map (\<lambda>strike.
           \<lparr>ceVolumeColor =
              (if ceVolume strike = highestCEVolume \<and> highestCEVolume > 0 then ''#4caf50''
               else ''transparent''),
            peVolumeColor =
              (if peVolume strike = highestPEVolume \<and> highestPEVolume > 0 then ''#f44336''
               else ''transparent''),
            ceOIColor =
              (if ceOI strike = highestCEOI \<and> highestCEOI > 0 then ''#4caf50''
               else ''transparent''),
            peOIColor =
              (if peOI strike = highestPEOI \<and> highestPEOI > 0 then ''#f44336''
               else ''transparent''),
            ceShouldFadeOI = False,
            peShouldFadeOI = False\<rparr>) strikes))"
  by (simp add: enrichedStrikes_def enrichStrike_no_history those_map_Some split: prod.splits)

theorem enrichedStrikes_no_history_witness:
  "enrichedStrikes
     [\<lparr>strikePrice = 19500, ceOI = 100, ceOIChange = 0, ceVolume = 10,
       peOI = 0, peOIChange = 0, peVolume = 0\<rparr>,
      \<lparr>strikePrice = 19550, ceOI = 40, ceOIChange = 0, ceVolume = 3,
       peOI = 7, peOIChange = 0, peVolume = 0\<rparr>] None =
   Some [\<lparr>ceVolumeColor = ''#4caf50'', peVolumeColor = ''transparent'',
          ceOIColor = ''#4caf50'', peOIColor = ''transparent'',
          ceShouldFadeOI = False, peShouldFadeOI = False\<rparr>,
         \<lparr>ceVolumeColor = ''transparent'', peVolumeColor = ''transparent'',
          ceOIColor = ''transparent'', peOIColor = ''#f44336'',
          ceShouldFadeOI = False, peShouldFadeOI = False\<rparr>]"
  by (simp add: enrichedStrikes_no_history findHighestVolumes_def findHighestOI_def)

section \<open>Snapshot caches keep the last three\<close>

lemma getAll_store:
  "getAll symb expiryDate (store symb expiryDate payload now cache) =
     (let pushed = getAll symb expiryDate cache @ [\<lparr>timestamp = now, cached = payload\<rparr>]
      in if length pushed > 3 then tl pushed else pushed)"
  by (simp add: getAll_def store_def MAX_ENTRIES_def Let_def)

lemma getPrevious_getAll:
  "getPrevious symb expiryDate cache =
     (let entries = getAll symb expiryDate cache
      in if length entries \<ge> 2 then Some (cached (entries ! (length entries - 2))) else None)"
  by (simp add: getPrevious_def getAll_def Let_def)

lemma length_getAll_store:
  "length (getAll symb expiryDate cache) \<le> 3 \<Longrightarrow>
   length (getAll symb' expiryDate' (store symb expiryDate payload now cache)) \<le>
     max 3 (length (getAll symb' expiryDate' cache))"
  by (cases "getCacheKey symb' expiryDate' = getCacheKey symb expiryDate")
     (auto simp add: getAll_def store_def MAX_ENTRIES_def Let_def split: option.splits)

lemma cacheStep_bounded:
  "(\<forall>symb expiryDate. length (getAll symb expiryDate cache) \<le> 3) \<Longrightarrow>
   length (getAll symb expiryDate (cacheStep op cache)) \<le> 3"
proof (cases op)
  case (Store s e p n)
  assume b: "\<forall>symb expiryDate. length (getAll symb expiryDate cache) \<le> 3"
  then have "length (getAll s e cache) \<le> 3" by blast
  from length_getAll_store [OF this, of symb expiryDate p n] b [rule_format, of symb expiryDate]
  show ?thesis using Store by simp
next
  case (Clear s e)
  assume b: "\<forall>symb expiryDate. length (getAll symb expiryDate cache) \<le> 3"
  from b [rule_format, of symb expiryDate] show ?thesis using Clear
    by (simp add: clear_def getAll_def split: option.splits if_splits)
next
  case ClearAll
  then show ?thesis by (simp add: getAll_def)
qed

lemma fold_cacheStep_bounded:
  "(\<forall>symb expiryDate. length (getAll symb expiryDate cache) \<le> 3) \<Longrightarrow>
   length (getAll symb expiryDate (fold cacheStep ops cache)) \<le> 3"
proof (induction ops arbitrary: cache symb expiryDate)
  case Nil
  then show ?case by simp
next
  case (Cons op ops)
  have "\<forall>symb expiryDate. length (getAll symb expiryDate (cacheStep op cache)) \<le> 3"
    using cacheStep_bounded [OF Cons.prems] by blast
  from Cons.IH [OF this] show ?case by simp
qed

lemma cacheRun_bounded: "length (getAll symb expiryDate (cacheRun ops)) \<le> 3"
  unfolding cacheRun_def by (rule fold_cacheStep_bounded) (simp add: getAll_def)

lemma push4_shift:
  assumes "length xs \<le> 3"
  shows "(let p1 = xs @ [a]; k1 = (if length p1 > 3 then tl p1 else p1);
              p2 = k1 @ [b]; k2 = (if length p2 > 3 then tl p2 else p2);
              p3 = k2 @ [c]; k3 = (if length p3 > 3 then tl p3 else p3);
              p4 = k3 @ [d]
          in (if length p4 > 3 then tl p4 else p4)) = [b, c, d]"
proof -
  consider "xs = []" | x where "xs = [x]" | x y where "xs = [x, y]"
    | x y z where "xs = [x, y, z]"
    using assms
    by (cases xs; cases "tl xs"; cases "tl (tl xs)"; cases "tl (tl (tl xs))") auto
  then show ?thesis by cases simp_all
qed


lemma store4_entries:
  assumes "length (getAll symb expiryDate cache) \<le> 3"
  shows "map cached (getAll symb expiryDate
           (store symb expiryDate d t4 (store symb expiryDate c t3
             (store symb expiryDate b t2 (store symb expiryDate a t1 cache))))) = [b, c, d]"
proof -
  have "getAll symb expiryDate
           (store symb expiryDate d t4 (store symb expiryDate c t3
             (store symb expiryDate b t2 (store symb expiryDate a t1 cache)))) =
        [\<lparr>timestamp = t2, cached = b\<rparr>, \<lparr>timestamp = t3, cached = c\<rparr>,
         \<lparr>timestamp = t4, cached = d\<rparr>]"
    using push4_shift [OF assms, of "\<lparr>timestamp = t1, cached = a\<rparr>"
        "\<lparr>timestamp = t2, cached = b\<rparr>" "\<lparr>timestamp = t3, cached = c\<rparr>"
        "\<lparr>timestamp = t4, cached = d\<rparr>"]
    by (simp only: getAll_store Let_def)
  then show ?thesis by simp
qed

lemma getPrevious_of_entries:
  "map cached (getAll symb expiryDate cache) = [b, c, d] \<Longrightarrow>
   getPrevious symb expiryDate cache = Some c"
proof -
  assume m: "map cached (getAll symb expiryDate cache) = [b, c, d]"
  then have l: "length (getAll symb expiryDate cache) = 3"
    by (metis length_map length_Cons list.size(3) numeral_3_eq_3)
  have "cached (getAll symb expiryDate cache ! 1) = map cached (getAll symb expiryDate cache) ! 1"
    using l by simp
  with m l show ?thesis by (simp add: getPrevious_getAll)
qed

lemma redisGetAll_store:
  "ready rc \<Longrightarrow> \<not> commandFails rc \<Longrightarrow>
   redisGetAll symb expiryDate (redisStore symb expiryDate payload now rc) =
     drop (length (redisGetAll symb expiryDate rc) - 2) (redisGetAll symb expiryDate rc) @
       [\<lparr>timestamp = now, cached = payload\<rparr>]"
  by (simp add: redisGetAll_def redisStore_def MAX_ENTRIES_def Let_def)

lemma ready_redisStore:
  "ready (redisStore symb expiryDate payload now rc) = ready rc"
  "commandFails (redisStore symb expiryDate payload now rc) = commandFails rc"
  by (simp_all add: redisStore_def Let_def)

lemma redisStore4_entries:
  assumes "ready rc" and "\<not> commandFails rc"
  shows "redisGetAll symb expiryDate
           (redisStore symb expiryDate d t4 (redisStore symb expiryDate c t3
             (redisStore symb expiryDate b t2 (redisStore symb expiryDate a t1 rc)))) =
         [\<lparr>timestamp = t2, cached = b\<rparr>, \<lparr>timestamp = t3, cached = c\<rparr>,
          \<lparr>timestamp = t4, cached = d\<rparr>]"
  using assms by (simp add: redisGetAll_store ready_redisStore)

lemma redisGetPrevious_getAll:
  "redisGetPrevious symb expiryDate rc =
     (if \<not> ready rc \<or> commandFails rc then None
      else let entries = redisGetAll symb expiryDate rc
           in if length entries \<ge> 2 then Some (cached (entries ! (length entries - 2))) else None)"
  by (simp add: redisGetPrevious_def redisGetAll_def Let_def split: option.splits)

lemma length_redisGetAll_store:
  "ready rc \<Longrightarrow> \<not> commandFails rc \<Longrightarrow> length (redisGetAll symb expiryDate (redisStore symb expiryDate payload now rc)) \<le> 3"
  by (simp add: redisGetAll_store)


text \<open>
  C3 (as stated): after four stores under one key the key holds the last three payloads
  and \<open>getPrevious\<close> returns the third. The Redis cache, which the poller uses, skips
  \<open>store\<close> and answers null from \<open>getPrevious\<close> while its client is not ready: four
  stores on a client that is not ready leave \<open>getPrevious\<close> without the payload.
\<close>

theorem snapshot_cache_counterexample:
  "redisGetPrevious ''NIFTY'' ''2025-11-28''
     (redisStore ''NIFTY'' ''2025-11-28'' ''d'' 4
       (redisStore ''NIFTY'' ''2025-11-28'' ''c'' 3
         (redisStore ''NIFTY'' ''2025-11-28'' ''b'' 2
           (redisStore ''NIFTY'' ''2025-11-28'' ''a'' 1
             \<lparr>ready = False, commandFails = False, server = Map.empty\<rparr>)))) \<noteq> Some ''c''"
  by (simp add: redisStore_def redisGetPrevious_def)

text \<open>
  C3 (amended): in the in-process cache, in every state reached from the empty cache,
  four stores \<open>a, b, c, d\<close> under one key leave exactly \<open>[b, c, d]\<close> there and
  \<open>getPrevious\<close> returns \<open>c\<close>; a key never holds more than three snapshots, and
  \<open>getPrevious\<close> returns the payload of the entry before the last, or null when there
  are fewer than two. The Redis cache does the same while its client is ready and its
  commands succeed; while the client is not ready or a command throws, \<open>store\<close>
  changes nothing and \<open>getPrevious\<close> returns null.
\<close>

theorem snapshot_cache_last_three:
  "(let cache' = store symb expiryDate d t4 (store symb expiryDate c t3
                   (store symb expiryDate b t2 (store symb expiryDate a t1 (cacheRun ops))))
    in map cached (getAll symb expiryDate cache') = [b, c, d] \<and>
       getPrevious symb expiryDate cache' = Some c) \<and>
   length (getAll symb expiryDate (cacheRun ops)) \<le> 3 \<and>
   getPrevious symb expiryDate (cacheRun ops) =
     (let entries = getAll symb expiryDate (cacheRun ops)
      in if length entries \<ge> 2 then Some (cached (entries ! (length entries - 2))) else None) \<and>
   (ready rc \<and> \<not> commandFails rc \<longrightarrow>
      (let rc' = redisStore symb expiryDate d t4 (redisStore symb expiryDate c t3
                   (redisStore symb expiryDate b t2 (redisStore symb expiryDate a t1 rc)))
       in map cached (redisGetAll symb expiryDate rc') = [b, c, d] \<and>
          redisGetPrevious symb expiryDate rc' = Some c) \<and>
      length (redisGetAll symb expiryDate (redisStore symb expiryDate a t1 rc)) \<le> 3 \<and>
      redisGetPrevious symb expiryDate rc =
        (let entries = redisGetAll symb expiryDate rc
         in if length entries \<ge> 2 then Some (cached (entries ! (length entries - 2)))
            else None)) \<and>
   (\<not> ready rc \<or> commandFails rc \<longrightarrow>
      redisStore symb expiryDate a t1 rc = rc \<and> redisGetPrevious symb expiryDate rc = None)"
proof -
  let ?c4 = "store symb expiryDate d t4 (store symb expiryDate c t3
               (store symb expiryDate b t2 (store symb expiryDate a t1 (cacheRun ops))))"
  let ?r4 = "redisStore symb expiryDate d t4 (redisStore symb expiryDate c t3
               (redisStore symb expiryDate b t2 (redisStore symb expiryDate a t1 rc)))"
  have m: "map cached (getAll symb expiryDate ?c4) = [b, c, d]"
    by (rule store4_entries) (rule cacheRun_bounded)
  have p: "getPrevious symb expiryDate ?c4 = Some c"
    by (rule getPrevious_of_entries) (rule m)
  have r: "ready rc \<Longrightarrow> \<not> commandFails rc \<Longrightarrow> map cached (redisGetAll symb expiryDate ?r4) = [b, c, d] \<and>
      redisGetPrevious symb expiryDate ?r4 = Some c"
    by (simp add: redisStore4_entries redisGetPrevious_getAll ready_redisStore)
  have n: "\<not> ready rc \<or> commandFails rc \<Longrightarrow>
      redisStore symb expiryDate a t1 rc = rc \<and> redisGetPrevious symb expiryDate rc = None"
    by (auto simp add: redisStore_def redisGetPrevious_def)
  show ?thesis
    using m p r n cacheRun_bounded [of symb expiryDate ops]
      length_redisGetAll_store [of rc symb expiryDate a t1]
      getPrevious_getAll [of symb expiryDate "cacheRun ops"]
      redisGetPrevious_getAll [of symb expiryDate rc]
    by (simp add: Let_def)
qed

theorem snapshot_cache_last_three_witness:
  "getPrevious ''NIFTY'' ''2025-11-28''
     (store ''NIFTY'' ''2025-11-28'' ''d'' 4 (store ''NIFTY'' ''2025-11-28'' ''c'' 3
       (store ''NIFTY'' ''2025-11-28'' ''b'' 2 (store ''NIFTY'' ''2025-11-28'' ''a'' 1
         (cacheRun []))))) = Some ''c'' \<and>
   redisGetPrevious ''NIFTY'' ''2025-11-28''
     (redisStore ''NIFTY'' ''2025-11-28'' ''d'' 4 (redisStore ''NIFTY'' ''2025-11-28'' ''c'' 3
       (redisStore ''NIFTY'' ''2025-11-28'' ''b'' 2 (redisStore ''NIFTY'' ''2025-11-28'' ''a'' 1
         \<lparr>ready = True, commandFails = False, server = Map.empty\<rparr>)))) = Some ''c'' \<and>
   redisStore ''NIFTY'' ''2025-11-28'' ''a'' 1
     \<lparr>ready = False, commandFails = False, server = Map.empty\<rparr> =
     \<lparr>ready = False, commandFails = False, server = Map.empty\<rparr>"
  using snapshot_cache_last_three [of "''NIFTY''" "''2025-11-28''" "''d''" 4 "''c''" 3 "''b''" 2
      "''a''" 1 "[]" "\<lparr>ready = True, commandFails = False, server = Map.empty\<rparr>"]
    snapshot_cache_last_three [of "''NIFTY''" "''2025-11-28''" "''d''" 4 "''c''" 3 "''b''" 2
      "''a''" 1 "[]" "\<lparr>ready = False, commandFails = False, server = Map.empty\<rparr>"]
  by (simp add: Let_def)

section \<open>The subscription indices of the WebSocket service\<close>

lemma sendToClient_Inr:
  "\<exists>ok st'. sendToClient sock w msg st = Inr (ok, st') \<and>
      clients st' = clients st \<and> channelSubscribers st' = channelSubscribers st"
  by (auto simp add: sendToClient_def ws_send_def)

lemma sendToClient_frame:
  assumes "sendToClient sock w msg st = Inr (ok, st')"
  shows "clients st' = clients st" and "channelSubscribers st' = channelSubscribers st"
  using assms by (auto simp add: sendToClient_def ws_send_def split: if_splits)

lemma sendToClient_not_Inl: "sendToClient sock w msg st \<noteq> Inl e"
  by (simp add: sendToClient_def ws_send_def)

lemma wsInv_frame:
  "clients st' = clients st \<Longrightarrow> channelSubscribers st' = channelSubscribers st \<Longrightarrow>
   wsInv st \<Longrightarrow> wsInv st'"
  by (simp add: wsInv_def subscribersOf_def subscriptionsOf_def)

lemma set_set_add: "set (set_add x xs) = insert x (set xs)"
  by (auto simp add: set_add_def)

lemma set_add_not_Nil: "set_add x xs \<noteq> []"
  by (simp add: set_add_def) (cases xs; auto)

lemma set_set_delete: "set (set_delete x xs) = set xs - {x}"
  by (auto simp add: set_delete_def)

lemma distinct_set_add: "distinct xs \<Longrightarrow> distinct (set_add x xs)"
  by (simp add: set_add_def)

lemma set_delete_Nil: "set_delete x xs = [] \<Longrightarrow> set xs - {x} = {}"
  using set_set_delete [of x xs] by simp

lemma subscribersOf_dropSubscriber:
  "subscribersOf (dropSubscriber w key st) k =
     (if k = key then subscribersOf st k - {w} else subscribersOf st k)"
proof (cases "channelSubscribers st key")
  case None
  then show ?thesis by (simp add: dropSubscriber_def subscribersOf_def)
next
  case (Some l)
  show ?thesis
  proof (cases "set_delete w l = []")
    case True
    with Some set_delete_Nil [OF True] show ?thesis
      by (simp add: dropSubscriber_def subscribersOf_def Let_def)
  next
    case False
    with Some show ?thesis
      by (simp add: dropSubscriber_def subscribersOf_def Let_def set_set_delete)
  qed
qed

lemma clients_dropSubscriber: "clients (dropSubscriber w key st) = clients st"
  by (simp add: dropSubscriber_def Let_def split: option.splits)

lemma nonempty_dropSubscriber:
  "\<forall>k. channelSubscribers st k \<noteq> Some [] \<Longrightarrow>
   channelSubscribers (dropSubscriber w key st) k \<noteq> Some []"
  by (auto simp add: dropSubscriber_def Let_def split: option.splits)

lemma subscribersOf_fold_drop:
  "subscribersOf (fold (dropSubscriber w) keys st) k =
     (if k \<in> set keys then subscribersOf st k - {w} else subscribersOf st k)"
  by (induction keys arbitrary: st) (auto simp add: subscribersOf_dropSubscriber)

lemma clients_fold_drop: "clients (fold (dropSubscriber w) keys st) = clients st"
  by (induction keys arbitrary: st) (simp_all add: clients_dropSubscriber)

lemma nonempty_fold_drop:
  "\<forall>k. channelSubscribers st k \<noteq> Some [] \<Longrightarrow>
   channelSubscribers (fold (dropSubscriber w) keys st) k \<noteq> Some []"
proof (induction keys arbitrary: st k)
  case Nil
  then show ?case by simp
next
  case (Cons key keys)
  have "\<forall>k. channelSubscribers (dropSubscriber w key st) k \<noteq> Some []"
    using nonempty_dropSubscriber [OF Cons.prems] by blast
  from Cons.IH [OF this] show ?case by simp
qed

lemma wsInv_removeClient: "wsInv st \<Longrightarrow> wsInv (removeClient w st)"
proof (cases "clients st w")
  case None
  assume "wsInv st"
  with None show ?thesis by (simp add: removeClient_def)
next
  case (Some client)
  assume inv: "wsInv st"
  let ?st1 = "fold (dropSubscriber w) (subscriptions client) st"
  let ?st2 = "?st1\<lparr>clients := (clients ?st1)(w := None)\<rparr>"
  have r: "removeClient w st = ?st2" using Some by (simp add: removeClient_def Let_def)
  have s2: "\<And>k. subscribersOf ?st2 k =
      (if k \<in> set (subscriptions client) then subscribersOf st k - {w} else subscribersOf st k)"
    using subscribersOf_fold_drop [of w "subscriptions client" st]
    by (simp add: subscribersOf_def)
  have c2: "\<And>w'. subscriptionsOf ?st2 w' = (if w' = w then {} else subscriptionsOf st w')"
    by (simp add: subscriptionsOf_def clients_fold_drop)
  have cw: "subscriptionsOf st w = set (subscriptions client)"
    using Some by (simp add: subscriptionsOf_def)
  have ne: "\<forall>k. channelSubscribers ?st2 k \<noteq> Some []"
    using nonempty_fold_drop [of st w "subscriptions client"] inv by (simp add: wsInv_def)
  have "\<forall>w' key. w' \<in> subscribersOf ?st2 key \<longleftrightarrow> key \<in> subscriptionsOf ?st2 w'"
    using inv cw unfolding s2 c2 wsInv_def by auto
  with ne show ?thesis unfolding r wsInv_def by blast
qed


lemma wsInv_subscribe:
  assumes inv: "wsInv st" and res: "subscribe sock w channel symb expiryDate now st = Inr st'"
  shows "wsInv st'"
proof (cases "clients st w")
  case None
  with res inv show ?thesis by (simp add: subscribe_def)
next
  case (Some client)
  let ?key = "subscriptionKey channel symb expiryDate"
  let ?subs = "case channelSubscribers st ?key of None \<Rightarrow> [] | Some l \<Rightarrow> l"
  let ?st2 = "st\<lparr>clients := (clients st)
                 (w \<mapsto> client\<lparr>subscriptions := set_add ?key (subscriptions client)\<rparr>),
               channelSubscribers := (channelSubscribers st)(?key \<mapsto> set_add w ?subs)\<rparr>"
  obtain ok where send: "sendToClient sock w (Subscribed ?key now) ?st2 = Inr (ok, st')"
    using res Some by (auto simp add: subscribe_def Let_def split: sum.splits)
  have s2: "\<And>k. subscribersOf ?st2 k =
      (if k = ?key then insert w (subscribersOf st k) else subscribersOf st k)"
    by (simp add: subscribersOf_def set_set_add split: option.splits)
  have c2: "\<And>w'. subscriptionsOf ?st2 w' =
      (if w' = w then insert ?key (subscriptionsOf st w') else subscriptionsOf st w')"
    using Some by (simp add: subscriptionsOf_def set_set_add)
  have ne: "\<forall>k. channelSubscribers ?st2 k \<noteq> Some []"
    using inv by (simp add: wsInv_def set_add_not_Nil)
  have "\<forall>w' key. w' \<in> subscribersOf ?st2 key \<longleftrightarrow> key \<in> subscriptionsOf ?st2 w'"
    using inv unfolding s2 c2 wsInv_def by auto
  with ne have "wsInv ?st2" unfolding wsInv_def by blast
  with sendToClient_frame [OF send] show ?thesis by (rule_tac wsInv_frame) auto
qed

lemma wsInv_unsubscribe:
  assumes inv: "wsInv st" and res: "unsubscribe sock w channel symb expiryDate now st = Inr st'"
  shows "wsInv st'"
proof (cases "clients st w")
  case None
  with res inv show ?thesis by (simp add: unsubscribe_def)
next
  case (Some client)
  let ?key = "subscriptionKey channel symb expiryDate"
  let ?st1 = "st\<lparr>clients := (clients st)
                 (w \<mapsto> client\<lparr>subscriptions := set_delete ?key (subscriptions client)\<rparr>)\<rparr>"
  let ?st2 = "dropSubscriber w ?key ?st1"
  obtain ok where send: "sendToClient sock w (Unsubscribed ?key now) ?st2 = Inr (ok, st')"
    using res Some by (auto simp add: unsubscribe_def Let_def split: sum.splits)
  have s1: "\<And>k. subscribersOf ?st1 k = subscribersOf st k"
    by (simp add: subscribersOf_def)
  have s2: "\<And>k. subscribersOf ?st2 k =
      (if k = ?key then subscribersOf st k - {w} else subscribersOf st k)"
    by (simp only: subscribersOf_dropSubscriber s1)
  have c2: "\<And>w'. subscriptionsOf ?st2 w' =
      (if w' = w then subscriptionsOf st w' - {?key} else subscriptionsOf st w')"
    using Some by (simp add: subscriptionsOf_def clients_dropSubscriber set_set_delete)
  have "\<forall>k. channelSubscribers ?st1 k \<noteq> Some []"
    using inv by (simp add: wsInv_def)
  then have ne: "\<forall>k. channelSubscribers ?st2 k \<noteq> Some []"
    using nonempty_dropSubscriber by blast
  have "\<forall>w' key. w' \<in> subscribersOf ?st2 key \<longleftrightarrow> key \<in> subscriptionsOf ?st2 w'"
    using inv unfolding s2 c2 wsInv_def by auto
  with ne have "wsInv ?st2" unfolding wsInv_def by blast
  with sendToClient_frame [OF send] show ?thesis by (rule_tac wsInv_frame) auto
qed

lemma wsInv_connection:
  assumes inv: "wsInv st" and fresh: "clients st w = None"
  shows "wsInv (st\<lparr>clients := (clients st)(w \<mapsto> \<lparr>ws = w, subscriptions = []\<rparr>)\<rparr>)"
proof -
  have "subscriptionsOf st w = {}" using fresh by (simp add: subscriptionsOf_def)
  then show ?thesis
    using inv by (auto simp add: wsInv_def subscriptionsOf_def subscribersOf_def)
qed

lemma wsInv_wsStep:
  assumes inv: "wsInv st"
    and fresh: "\<And>w now. ev = Connection w now \<Longrightarrow> clients st w = None"
    and res: "wsStep sock ev st = Inr st'"
  shows "wsInv st'"
proof (cases ev)
  case (Connection w now)
  let ?st1 = "st\<lparr>clients := (clients st)(w \<mapsto> \<lparr>ws = w, subscriptions = []\<rparr>)\<rparr>"
  obtain ok where send: "sendToClient sock w (Connected now) ?st1 = Inr (ok, st')"
    using res Connection by (auto simp add: wsStep_def split: sum.splits)
  have "wsInv ?st1" using inv fresh [OF Connection] by (rule wsInv_connection)
  with sendToClient_frame [OF send] show ?thesis by (rule_tac wsInv_frame) auto
next
  case (MessageEvent w data now)
  show ?thesis
  proof (cases "case data of None \<Rightarrow> Inl (Exn ''JSON.parse'')
                 | Some m \<Rightarrow> handleMessage sock w m now st")
    case (Inl error)
    then obtain ok where send:
      "sendToClient sock w (ErrorMessage ''Invalid message format'') st = Inr (ok, st')"
      using res MessageEvent by (auto simp add: wsStep_def split: sum.splits)
    with sendToClient_frame [OF send] inv show ?thesis by (rule_tac wsInv_frame) auto
  next
    case (Inr st'')
    then have eq: "st'' = st'" using res MessageEvent by (simp add: wsStep_def)
    from Inr obtain m where m: "data = Some m" "handleMessage sock w m now st = Inr st'"
      unfolding eq by (cases data) auto
    show ?thesis
    proof (cases m)
      case (SubscribeMsg channel symb expiryDate)
      with m inv show ?thesis by (auto simp add: handleMessage_def intro: wsInv_subscribe)
    next
      case (UnsubscribeMsg channel symb expiryDate)
      with m inv show ?thesis by (auto simp add: handleMessage_def intro: wsInv_unsubscribe)
    next
      case (UnknownType ty)
      with m obtain ok where send:
        "sendToClient sock w (ErrorMessage (''Unknown message type: '' @ ty)) st = Inr (ok, st')"
        by (auto simp add: handleMessage_def split: sum.splits)
      with sendToClient_frame [OF send] inv show ?thesis by (rule_tac wsInv_frame) auto
    qed
  qed
next
  case (CloseEvent w)
  with res inv show ?thesis by (auto simp add: wsStep_def intro: wsInv_removeClient)
next
  case (ErrorEvent w)
  with res inv show ?thesis by (auto simp add: wsStep_def intro: wsInv_removeClient)
qed

lemma wsReachable_wsInv: "wsReachable st \<Longrightarrow> wsInv st"
proof (induction rule: wsReachable.induct)
  case wsInit
  show ?case by (simp add: wsInv_def wsInitial_def subscribersOf_def subscriptionsOf_def)
next
  case (wsNext st ev sock st')
  from wsNext.IH wsNext.hyps(2) wsNext.hyps(3) show ?case by (rule wsInv_wsStep)
qed

lemma subscribe_Inr: "\<exists>st'. subscribe sock w channel symb expiryDate now st = Inr st'"
proof (cases "clients st w")
  case None
  then show ?thesis by (simp add: subscribe_def)
next
  case (Some client)
  let ?key = "subscriptionKey channel symb expiryDate"
  let ?subs = "case channelSubscribers st ?key of None \<Rightarrow> [] | Some l \<Rightarrow> l"
  let ?st2 = "st\<lparr>clients := (clients st)
                 (w \<mapsto> client\<lparr>subscriptions := set_add ?key (subscriptions client)\<rparr>),
               channelSubscribers := (channelSubscribers st)(?key \<mapsto> set_add w ?subs)\<rparr>"
  obtain ok st' where "sendToClient sock w (Subscribed ?key now) ?st2 = Inr (ok, st')"
    using sendToClient_Inr by blast
  with Some show ?thesis by (simp add: subscribe_def Let_def)
qed

lemma unsubscribe_Inr: "\<exists>st'. unsubscribe sock w channel symb expiryDate now st = Inr st'"
proof (cases "clients st w")
  case None
  then show ?thesis by (simp add: unsubscribe_def)
next
  case (Some client)
  let ?key = "subscriptionKey channel symb expiryDate"
  let ?st1 = "st\<lparr>clients := (clients st)
                 (w \<mapsto> client\<lparr>subscriptions := set_delete ?key (subscriptions client)\<rparr>)\<rparr>"
  obtain ok st' where
    "sendToClient sock w (Unsubscribed ?key now) (dropSubscriber w ?key ?st1) = Inr (ok, st')"
    using sendToClient_Inr by blast
  with Some show ?thesis by (simp add: unsubscribe_def Let_def)
qed

lemma sendToClient_then_Inr:
  "\<exists>st'. (case sendToClient sock w msg st of Inl e \<Rightarrow> Inl e | Inr (ok, st') \<Rightarrow> Inr st') = Inr st'"
proof -
  obtain ok st' where "sendToClient sock w msg st = Inr (ok, st')"
    using sendToClient_Inr by blast
  then show ?thesis by simp
qed

lemma handleMessage_Inr: "\<exists>st'. handleMessage sock w m now st = Inr st'"
  by (cases m) (simp_all add: handleMessage_def subscribe_Inr unsubscribe_Inr sendToClient_then_Inr)

lemma wsStep_Inr: "\<exists>st'. wsStep sock ev st = Inr st'"
proof (cases ev)
  case (Connection w now)
  then show ?thesis by (simp add: wsStep_def sendToClient_then_Inr)
next
  case (MessageEvent w data now)
  show ?thesis
  proof (cases data)
    case None
    with MessageEvent show ?thesis by (simp add: wsStep_def sendToClient_then_Inr)
  next
    case (Some m)
    obtain st' where "handleMessage sock w m now st = Inr st'"
      using handleMessage_Inr by blast
    with MessageEvent Some show ?thesis by (simp add: wsStep_def)
  qed
next
  case (CloseEvent w)
  then show ?thesis by (simp add: wsStep_def)
next
  case (ErrorEvent w)
  then show ?thesis by (simp add: wsStep_def)
qed

text \<open>
  C10: after every sequence of connections, subscribe and unsubscribe messages and
  disconnections, a socket is among the subscribers of a key exactly when the key is
  among the subscriptions of that socket's client record, and no key maps to the empty
  set of subscribers.
\<close>

theorem broadcaster_indices_consistent:
  assumes "wsReachable st"
  shows "(\<forall>w key.
            (\<exists>subscribers. channelSubscribers st key = Some subscribers \<and> w \<in> set subscribers) \<longleftrightarrow>
            (\<exists>client. clients st w = Some client \<and> key \<in> set (subscriptions client))) \<and>
         (\<forall>key. channelSubscribers st key \<noteq> Some [])"
  using wsReachable_wsInv [OF assms]
  by (simp add: wsInv_def subscribersOf_def subscriptionsOf_def split: option.splits) blast


theorem broadcaster_indices_consistent_witness:
  "wsReachable
     (\<lparr>clients = [1 \<mapsto> \<lparr>ws = 1, subscriptions = [''option-chain:NIFTY:2025-11-28'']\<rparr>],
       channelSubscribers = [''option-chain:NIFTY:2025-11-28'' \<mapsto> [1]],
       wire = [(1, Connected 0), (1, Subscribed ''option-chain:NIFTY:2025-11-28'' 5)]\<rparr>
      :: unit WebSocketService) \<and>
   (\<forall>w key.
      (\<exists>subscribers.
          [''option-chain:NIFTY:2025-11-28'' \<mapsto> [1::nat]] key = Some subscribers \<and>
          w \<in> set subscribers) \<longleftrightarrow>
      (\<exists>client.
          [1 \<mapsto> \<lparr>ws = 1, subscriptions = [''option-chain:NIFTY:2025-11-28'']\<rparr>] w = Some client \<and>
          key \<in> set (subscriptions client)))"
proof -
  let ?sock = "\<lambda>w::WebSocket. \<lparr>readyState = OPEN, sendThrows = False\<rparr>"
  let ?st1 = "\<lparr>clients = [1 \<mapsto> \<lparr>ws = 1, subscriptions = []\<rparr>],
               channelSubscribers = Map.empty,
               wire = [(1, Connected 0)]\<rparr> :: unit WebSocketService"
  let ?st2 = "\<lparr>clients = [1 \<mapsto> \<lparr>ws = 1, subscriptions = [''option-chain:NIFTY:2025-11-28'']\<rparr>],
       channelSubscribers = [''option-chain:NIFTY:2025-11-28'' \<mapsto> [1]],
       wire = [(1, Connected 0), (1, Subscribed ''option-chain:NIFTY:2025-11-28'' 5)]\<rparr>
      :: unit WebSocketService"
  have s1: "wsStep ?sock (Connection 1 0) wsInitial = Inr ?st1"
    by (simp add: wsStep_def sendToClient_def ws_send_def wsInitial_def)
  have r1: "wsReachable ?st1"
    by (rule wsNext [OF wsInit _ s1]) (simp add: wsInitial_def)
  have s2: "wsStep ?sock
      (MessageEvent 1 (Some (SubscribeMsg ''option-chain'' (Some ''NIFTY'') (Some ''2025-11-28''))) 5)
      ?st1 = Inr ?st2"
    by (simp add: wsStep_def handleMessage_def subscribe_def subscriptionKey_def keyPart_def
        set_add_def sendToClient_def ws_send_def Let_def)
  have r2: "wsReachable ?st2"
    by (rule wsNext [OF r1 _ s2]) simp
  from broadcaster_indices_consistent [OF r2] r2 show ?thesis by simp
qed

section \<open>Broadcast\<close>

lemma forEachSend_result:
  "forEachSend sock msg subscribers (n, st) =
     Inr (n + length (filter (\<lambda>w. readyState (sock w) = OPEN \<and> \<not> sendThrows (sock w)) subscribers),
          st\<lparr>wire := wire st @
                 map (\<lambda>w. (w, msg))
                   (filter (\<lambda>w. readyState (sock w) = OPEN \<and> \<not> sendThrows (sock w)) subscribers)\<rparr>)"
  by (induction subscribers arbitrary: n st) (simp_all add: sendToClient_def ws_send_def)

text \<open>
  C7: \<open>broadcast\<close> never throws (its result is \<open>Inr\<close>), and puts the update on the wire
  to every subscriber of the channel that is open and whose \<open>send\<close> does not throw, in
  the order of the subscriber set, whatever the sockets before or after it do; the count
  is the number of those sends. A subscriber that is not open is skipped, one whose
  \<open>send\<close> throws is passed over.
\<close>

theorem broadcast_isolates_failures:
  "broadcast sock channel payload now st =
     (let subscribers = (case channelSubscribers st channel of None \<Rightarrow> [] | Some l \<Rightarrow> l);
          delivered = filter (\<lambda>w. readyState (sock w) = OPEN \<and> \<not> sendThrows (sock w)) subscribers
      in Inr (length delivered,
              st\<lparr>wire := wire st @ map (\<lambda>w. (w, Update channel payload now)) delivered\<rparr>))"
  by (simp add: broadcast_def forEachSend_result Let_def split: option.splits)

theorem broadcast_isolates_failures_witness:
  "broadcast
     (\<lambda>w. if w = 2 then \<lparr>readyState = OPEN, sendThrows = True\<rparr>
          else if w = 4 then \<lparr>readyState = CLOSED, sendThrows = False\<rparr>
          else \<lparr>readyState = OPEN, sendThrows = False\<rparr>)
     ''ivdex:NIFTY'' (15 :: nat) 7
     \<lparr>clients = Map.empty, channelSubscribers = [''ivdex:NIFTY'' \<mapsto> [1, 2, 3, 4]], wire = []\<rparr> =
   Inr (2, \<lparr>clients = Map.empty, channelSubscribers = [''ivdex:NIFTY'' \<mapsto> [1, 2, 3, 4]],
            wire = [(1, Update ''ivdex:NIFTY'' 15 7), (3, Update ''ivdex:NIFTY'' 15 7)]\<rparr>)"
  by (simp add: broadcast_isolates_failures)

section \<open>The poller's timers\<close>

lemma linked_delete:
  assumes "linked P T n" and "P key = Some t"
  shows "linked (P(key := None)) (T(t := None)) n"
  using assms unfolding linked_def by (auto; metis option.inject)

lemma linked_insert:
  assumes "linked P T n" and "P (tickKey cb) = None"
  shows "linked (P(tickKey cb \<mapsto> n)) (T(n \<mapsto> cb)) (Suc n)"
  using assms unfolding linked_def
  by (auto simp add: less_Suc_eq; metis less_irrefl option.distinct(1))

lemma linked_fresh: "linked P T n \<Longrightarrow> T n = None"
  unfolding linked_def by (cases "T n") auto

lemma map_add_fresh: "m k = None \<Longrightarrow> [k \<mapsto> v] ++ m = m(k \<mapsto> v)"
  by (rule ext) (auto simp add: map_add_def split: option.splits)

lemma distinct_snoc_fresh:
  "distinct (map fst xs) \<Longrightarrow> map_of xs k = None \<Longrightarrow> distinct (map fst (xs @ [(k, v)]))"
  by (auto simp add: map_of_eq_None_iff)

lemma dom_delete: "fst ` set (AList.delete k al) = fst ` set al - {k}"
  by (auto simp add: AList.delete_eq image_iff)


lemma pollerInvD:
  assumes "pollerInv s"
  shows "distinct (map fst (intervals s))"
    and "linked (map_of (pollers s)) (map_of (intervals s)) (nextHandle s)"
    and "\<And>key t symb expiryDate. map_of (pollers s) key = Some t \<Longrightarrow>
           map_of (intervals s) t = Some (ChainTick symb expiryDate) \<Longrightarrow>
           key \<in> fst ` set (activePolls s)"
  using assms unfolding pollerInv_def by blast+

lemma pollerInvI:
  assumes "distinct (map fst (intervals s))"
    and "linked (map_of (pollers s)) (map_of (intervals s)) (nextHandle s)"
    and "\<And>key t symb expiryDate. map_of (pollers s) key = Some t \<Longrightarrow>
           map_of (intervals s) t = Some (ChainTick symb expiryDate) \<Longrightarrow>
           key \<in> fst ` set (activePolls s)"
  shows "pollerInv s"
  using assms unfolding pollerInv_def by blast

lemma pollerInv_stopPolling:
  assumes inv: "pollerInv s"
  shows "pollerInv (stopPolling symb expiryDate s)"
proof (cases "map_of (pollers s) (symb @ '':'' @ expiryDate)")
  case None
  with inv show ?thesis by (simp add: stopPolling_def)
next
  case (Some t)
  let ?key = "symb @ '':'' @ expiryDate"
  let ?s' = "stopPolling symb expiryDate s"
  have P: "map_of (pollers ?s') = (map_of (pollers s))(?key := None)"
    and T: "map_of (intervals ?s') = (map_of (intervals s))(t := None)"
    and N: "nextHandle ?s' = nextHandle s"
    and A: "fst ` set (activePolls ?s') = fst ` set (activePolls s) - {?key}"
    and D: "distinct (map fst (intervals ?s'))"
    using Some pollerInvD(1) [OF inv]
    by (simp_all add: stopPolling_def clearInterval_def Let_def delete_conv' dom_delete
        distinct_delete)
  have L: "linked (map_of (pollers ?s')) (map_of (intervals ?s')) (nextHandle ?s')"
    unfolding P T N using pollerInvD(2) [OF inv] Some by (rule linked_delete)
  show ?thesis
  proof (rule pollerInvI [OF D L])
    fix key t' sy ex
    assume "map_of (pollers ?s') key = Some t'"
      and "map_of (intervals ?s') t' = Some (ChainTick sy ex)"
    then have "key \<noteq> ?key" and "map_of (pollers s) key = Some t'"
      and "map_of (intervals s) t' = Some (ChainTick sy ex)"
      unfolding P T by (auto split: if_splits)
    with pollerInvD(3) [OF inv] show "key \<in> fst ` set (activePolls ?s')"
      unfolding A by blast
  qed
qed

lemma pollerInv_stopIVPolling:
  assumes inv: "pollerInv s"
  shows "pollerInv (stopIVPolling symb s)"
proof (cases "map_of (pollers s) (''iv:'' @ symb)")
  case None
  with inv show ?thesis by (simp add: stopIVPolling_def)
next
  case (Some t)
  let ?key = "''iv:'' @ symb"
  let ?s' = "stopIVPolling symb s"
  have P: "map_of (pollers ?s') = (map_of (pollers s))(?key := None)"
    and T: "map_of (intervals ?s') = (map_of (intervals s))(t := None)"
    and N: "nextHandle ?s' = nextHandle s"
    and A: "activePolls ?s' = activePolls s"
    and D: "distinct (map fst (intervals ?s'))"
    using Some pollerInvD(1) [OF inv]
    by (simp_all add: stopIVPolling_def clearInterval_def Let_def delete_conv'
        distinct_delete)
  have L: "linked (map_of (pollers ?s')) (map_of (intervals ?s')) (nextHandle ?s')"
    unfolding P T N using pollerInvD(2) [OF inv] Some by (rule linked_delete)
  show ?thesis
  proof (rule pollerInvI [OF D L])
    fix key t' sy ex
    assume "map_of (pollers ?s') key = Some t'"
      and "map_of (intervals ?s') t' = Some (ChainTick sy ex)"
    then have "map_of (pollers s) key = Some t'"
      and "map_of (intervals s) t' = Some (ChainTick sy ex)"
      unfolding P T by (auto split: if_splits)
    with pollerInvD(3) [OF inv] show "key \<in> fst ` set (activePolls ?s')"
      unfolding A by blast
  qed
qed

lemma stopPolling_not_running:
  "map_of (pollers (stopPolling symb expiryDate s)) (symb @ '':'' @ expiryDate) = None"
  by (simp add: stopPolling_def clearInterval_def Let_def delete_conv' split: option.splits)

lemma stopIVPolling_not_running:
  "map_of (pollers (stopIVPolling symb s)) (''iv:'' @ symb) = None"
  by (simp add: stopIVPolling_def clearInterval_def Let_def delete_conv' split: option.splits)

text \<open>Installing a poller for a key that is not running.\<close>

lemma pollerInv_install:
  assumes inv: "pollerInv s" and free: "map_of (pollers s) (tickKey cb) = None"
    and listed: "\<And>symb expiryDate. cb = ChainTick symb expiryDate \<Longrightarrow>
                   tickKey cb \<in> fst ` set (activePolls s)"
  shows "pollerInv
           ((snd (setInterval cb (beginFetch cb s)))
              \<lparr>pollers := AList.update (tickKey cb) (nextHandle s) (pollers s)\<rparr>)"
    (is "pollerInv ?s'")
proof -
  have fresh: "map_of (intervals s) (nextHandle s) = None"
    using pollerInvD(2) [OF inv] by (rule linked_fresh)
  have P: "map_of (pollers ?s') = (map_of (pollers s))(tickKey cb \<mapsto> nextHandle s)"
    and T: "map_of (intervals ?s') = (map_of (intervals s))(nextHandle s \<mapsto> cb)"
    and N: "nextHandle ?s' = Suc (nextHandle s)"
    and A: "activePolls ?s' = activePolls s"
    using fresh
    by (simp_all add: setInterval_def beginFetch_def update_conv' map_add_fresh)
  have D: "distinct (map fst (intervals ?s'))"
    using distinct_snoc_fresh [OF pollerInvD(1) [OF inv] fresh]
    by (simp add: setInterval_def beginFetch_def)
  have L: "linked (map_of (pollers ?s')) (map_of (intervals ?s')) (nextHandle ?s')"
    unfolding P T N using pollerInvD(2) [OF inv] free by (rule linked_insert)
  show ?thesis
  proof (rule pollerInvI [OF D L])
    fix key t' sy ex
    assume p: "map_of (pollers ?s') key = Some t'"
      and t: "map_of (intervals ?s') t' = Some (ChainTick sy ex)"
    show "key \<in> fst ` set (activePolls ?s')"
    proof (cases "key = tickKey cb")
      case True
      with p have "t' = nextHandle s" unfolding P by simp
      with t have "cb = ChainTick sy ex" unfolding T by simp
      from listed [OF this] True show ?thesis unfolding A by simp
    next
      case False
      with p have p0: "map_of (pollers s) key = Some t'" unfolding P by simp
      then obtain cb0 where "map_of (intervals s) t' = Some cb0"
        using pollerInvD(2) [OF inv] unfolding linked_def by blast
      with fresh have "t' \<noteq> nextHandle s" by auto
      with t have "map_of (intervals s) t' = Some (ChainTick sy ex)" unfolding T by simp
      with p0 pollerInvD(3) [OF inv] show ?thesis unfolding A by blast
    qed
  qed
qed

lemma listed_frame:
  "pollerInv s \<Longrightarrow> pollers s' = pollers s \<Longrightarrow> intervals s' = intervals s \<Longrightarrow>
   nextHandle s' = nextHandle s \<Longrightarrow> fst ` set (activePolls s) \<subseteq> fst ` set (activePolls s') \<Longrightarrow>
   pollerInv s'"
  unfolding pollerInv_def by (simp only:) blast

lemma startPolling_unfold:
  "startPolling symb expiryDate ival s =
     (let s1 = stopPolling symb expiryDate s;
          s2 = s1\<lparr>activePolls :=
                   AList.update (symb @ '':'' @ expiryDate)
                     \<lparr>symbol = symb, expiry = expiryDate, interval = ival\<rparr> (activePolls s1)\<rparr>
      in (snd (setInterval (ChainTick symb expiryDate) (beginFetch (ChainTick symb expiryDate) s2)))
           \<lparr>pollers := AList.update (tickKey (ChainTick symb expiryDate)) (nextHandle s2)
                         (pollers s2)\<rparr>)"
  by (simp add: startPolling_def Let_def setInterval_def beginFetch_def)

lemma startIVPolling_unfold:
  "startIVPolling symb ival s =
     (let s1 = stopIVPolling symb s
      in (snd (setInterval (IVTick symb) (beginFetch (IVTick symb) s1)))
           \<lparr>pollers := AList.update (tickKey (IVTick symb)) (nextHandle s1) (pollers s1)\<rparr>)"
  by (simp add: startIVPolling_def Let_def setInterval_def beginFetch_def)

lemma pollerInv_startPolling:
  assumes inv: "pollerInv s"
  shows "pollerInv (startPolling symb expiryDate ival s)"
proof -
  let ?key = "symb @ '':'' @ expiryDate"
  let ?s1 = "stopPolling symb expiryDate s"
  let ?s2 = "?s1\<lparr>activePolls :=
                   AList.update ?key
                     \<lparr>symbol = symb, expiry = expiryDate, interval = ival\<rparr> (activePolls ?s1)\<rparr>"
  have i1: "pollerInv ?s1" using inv by (rule pollerInv_stopPolling)
  have i2: "pollerInv ?s2"
    by (rule listed_frame [OF i1]) (auto simp add: dom_update)
  have free: "map_of (pollers ?s2) (tickKey (ChainTick symb expiryDate)) = None"
    using stopPolling_not_running [of symb expiryDate s] by simp
  have listed: "tickKey (ChainTick symb expiryDate) \<in> fst ` set (activePolls ?s2)"
    by (simp add: dom_update)
  show ?thesis
    unfolding startPolling_unfold Let_def
    by (rule pollerInv_install [OF i2 free]) (rule listed)
qed

lemma pollerInv_startIVPolling:
  assumes inv: "pollerInv s"
  shows "pollerInv (startIVPolling symb ival s)"
proof -
  let ?s1 = "stopIVPolling symb s"
  have i1: "pollerInv ?s1" using inv by (rule pollerInv_stopIVPolling)
  have free: "map_of (pollers ?s1) (tickKey (IVTick symb)) = None"
    using stopIVPolling_not_running [of symb s] by simp
  show ?thesis
    unfolding startIVPolling_unfold Let_def
    by (rule pollerInv_install [OF i1 free]) simp
qed


lemma fold_clearInterval:
  "fold (\<lambda>(key, timerId). clearInterval timerId) ps s =
     s\<lparr>intervals := filter (\<lambda>(t, cb). t \<notin> snd ` set ps) (intervals s)\<rparr>"
proof (induction ps arbitrary: s)
  case Nil
  then show ?case by simp
next
  case (Cons p ps)
  obtain key t where p: "p = (key, t)" by (cases p)
  have f: "filter (\<lambda>(t', cb). t' \<notin> snd ` set ps) (AList.delete t (intervals s)) =
        filter (\<lambda>(t', cb). t' \<notin> snd ` set (p # ps)) (intervals s)"
    unfolding p AList.delete_eq by (auto intro: filter_cong)
  have "fold (\<lambda>(key, timerId). clearInterval timerId) (p # ps) s =
        fold (\<lambda>(key, timerId). clearInterval timerId) ps (clearInterval t s)"
    unfolding p by simp
  also have "\<dots> = (clearInterval t s)
      \<lparr>intervals := filter (\<lambda>(t, cb). t \<notin> snd ` set ps) (intervals (clearInterval t s))\<rparr>"
    by (rule Cons.IH)
  also have "\<dots> = s\<lparr>intervals := filter (\<lambda>(t, cb). t \<notin> snd ` set (p # ps)) (intervals s)\<rparr>"
    unfolding f [symmetric] by (simp add: clearInterval_def)
  finally show ?case .
qed

lemma intervals_stopAll:
  assumes inv: "pollerInv s"
  shows "intervals (stopAll s) = []"
proof -
  have "\<And>t cb. (t, cb) \<in> set (intervals s) \<Longrightarrow> t \<in> snd ` set (pollers s)"
  proof -
    fix t cb
    assume "(t, cb) \<in> set (intervals s)"
    with pollerInvD(1) [OF inv] have "map_of (intervals s) t = Some cb" by simp
    with pollerInvD(2) [OF inv] have "map_of (pollers s) (tickKey cb) = Some t"
      unfolding linked_def by blast
    then have "(tickKey cb, t) \<in> set (pollers s)" by (rule map_of_SomeD)
    then show "t \<in> snd ` set (pollers s)" by force
  qed
  then have "filter (\<lambda>(t, cb). t \<notin> snd ` set (pollers s)) (intervals s) = []"
    by (auto simp add: filter_empty_conv)
  then show ?thesis by (simp add: stopAll_def fold_clearInterval Let_def)
qed

lemma pollerInv_stopAll:
  assumes inv: "pollerInv s"
  shows "pollerInv (stopAll s)"
proof (rule pollerInvI)
  show "distinct (map fst (intervals (stopAll s)))"
    by (simp add: intervals_stopAll [OF inv])
  have "pollers (stopAll s) = []" by (simp add: stopAll_def Let_def)
  then show "linked (map_of (pollers (stopAll s))) (map_of (intervals (stopAll s)))
      (nextHandle (stopAll s))"
    by (simp add: intervals_stopAll [OF inv] linked_def)
  fix key t symb expiryDate
  assume "map_of (pollers (stopAll s)) key = Some t"
  then show "key \<in> fst ` set (activePolls (stopAll s))" by (simp add: stopAll_def Let_def)
qed

lemma pollerInv_timerFires: "pollerInv s \<Longrightarrow> pollerInv (timerFires timerId s)"
  by (simp add: timerFires_def beginFetch_def pollerInv_def split: option.splits)

lemma pollerInv_fetchCompletes: "pollerInv s \<Longrightarrow> pollerInv (fetchCompletes i threw s)"
  by (simp add: fetchCompletes_def pollerInv_def Let_def)

lemma pollerInv_pollerStep: "pollerInv s \<Longrightarrow> pollerInv (pollerStep ev s)"
  by (cases ev)
    (simp_all add: pollerInv_startPolling pollerInv_stopPolling pollerInv_startIVPolling
      pollerInv_stopIVPolling pollerInv_stopAll pollerInv_timerFires pollerInv_fetchCompletes)

lemma pollerInv_pollerRun: "pollerInv s \<Longrightarrow> pollerInv (pollerRun events s)"
  unfolding pollerRun_def by (induction events arbitrary: s) (simp_all add: pollerInv_pollerStep)

lemma pollerInv_pollerInitial: "pollerInv pollerInitial"
  by (simp add: pollerInv_def pollerInitial_def linked_def)

lemma pollerInv_reachable: "pollerInv (pollerRun events pollerInitial)"
  by (rule pollerInv_pollerRun) (rule pollerInv_pollerInitial)

lemma distinct_same_length_le_1:
  assumes "distinct xs" and "\<And>x y. x \<in> set xs \<Longrightarrow> y \<in> set xs \<Longrightarrow> x = y"
  shows "length xs \<le> 1"
proof (cases xs)
  case Nil
  then show ?thesis by simp
next
  case (Cons x ys)
  show ?thesis
  proof (cases ys)
    case Nil
    with Cons show ?thesis by simp
  next
    case (Cons y zs)
    with \<open>xs = x # ys\<close> assms(2) [of x y] assms(1) show ?thesis by auto
  qed
qed

lemma timersOf_iff:
  assumes inv: "pollerInv s"
  shows "(t, cb) \<in> set (timersOf key s) \<longleftrightarrow>
         map_of (pollers s) key = Some t \<and> map_of (intervals s) t = Some cb"
proof
  assume "(t, cb) \<in> set (timersOf key s)"
  then have m: "(t, cb) \<in> set (intervals s)" and k: "tickKey cb = key"
    by (auto simp add: timersOf_def)
  from m pollerInvD(1) [OF inv] have T: "map_of (intervals s) t = Some cb" by simp
  with pollerInvD(2) [OF inv] k have "map_of (pollers s) key = Some t"
    unfolding linked_def by blast
  with T show "map_of (pollers s) key = Some t \<and> map_of (intervals s) t = Some cb" by simp
next
  assume a: "map_of (pollers s) key = Some t \<and> map_of (intervals s) t = Some cb"
  then obtain cb' where "map_of (intervals s) t = Some cb'" "tickKey cb' = key"
    using pollerInvD(2) [OF inv] unfolding linked_def by blast
  with a have "tickKey cb = key" by simp
  moreover from a have "(t, cb) \<in> set (intervals s)" by (auto dest: map_of_SomeD)
  ultimately show "(t, cb) \<in> set (timersOf key s)" by (simp add: timersOf_def)
qed

lemma length_timersOf:
  assumes inv: "pollerInv s"
  shows "length (timersOf key s) \<le> 1"
proof (rule distinct_same_length_le_1)
  have "distinct (map fst (timersOf key s))"
    unfolding timersOf_def using pollerInvD(1) [OF inv] by (rule distinct_map_filter)
  then show "distinct (timersOf key s)" by (simp add: distinct_map)
next
  fix x y
  assume x: "x \<in> set (timersOf key s)" and y: "y \<in> set (timersOf key s)"
  obtain t cb where xe: "x = (t, cb)" by (cases x)
  obtain t' cb' where ye: "y = (t', cb')" by (cases y)
  from x y show "x = y" unfolding xe ye timersOf_iff [OF inv] by simp
qed


lemma timersOf_not_running:
  assumes inv: "pollerInv s" and free: "map_of (pollers s) key = None"
  shows "timersOf key s = []"
proof (cases "timersOf key s")
  case Nil
  then show ?thesis .
next
  case (Cons x xs)
  obtain t cb where "x = (t, cb)" by (cases x)
  with Cons have "(t, cb) \<in> set (timersOf key s)" by simp
  with timersOf_iff [OF inv] free show ?thesis by simp
qed

lemma stopPolling_idle:
  "map_of (pollers s) (symb @ '':'' @ expiryDate) = None \<Longrightarrow> stopPolling symb expiryDate s = s"
  by (simp add: stopPolling_def)

lemma intervals_startPolling:
  "intervals (startPolling symb expiryDate ival s) =
     intervals (stopPolling symb expiryDate s) @ [(nextHandle s, ChainTick symb expiryDate)]"
  by (simp add: startPolling_def setInterval_def beginFetch_def stopPolling_def clearInterval_def
      Let_def split: option.splits)

lemma pollers_startPolling:
  "map_of (pollers (startPolling symb expiryDate ival s)) (symb @ '':'' @ expiryDate) =
     Some (nextHandle s)"
  by (simp add: startPolling_def setInterval_def beginFetch_def stopPolling_def clearInterval_def
      Let_def update_conv' split: option.splits)

lemma restart_replaces_timer:
  assumes inv: "pollerInv s"
  shows "timersOf (symb @ '':'' @ expiryDate) (startPolling symb expiryDate ival s) =
           [(nextHandle s, ChainTick symb expiryDate)]"
    and "map_of (pollers s) (symb @ '':'' @ expiryDate) = Some old \<Longrightarrow>
           old \<notin> fst ` set (intervals (startPolling symb expiryDate ival s))"
proof -
  let ?key = "symb @ '':'' @ expiryDate"
  let ?s1 = "stopPolling symb expiryDate s"
  have i1: "pollerInv ?s1" using inv by (rule pollerInv_stopPolling)
  have "timersOf ?key ?s1 = []"
    using i1 stopPolling_not_running by (rule timersOf_not_running)
  then show "timersOf ?key (startPolling symb expiryDate ival s) =
           [(nextHandle s, ChainTick symb expiryDate)]"
    by (simp add: timersOf_def intervals_startPolling)
  assume old: "map_of (pollers s) ?key = Some old"
  then obtain cb where "map_of (intervals s) old = Some cb"
    using pollerInvD(2) [OF inv] unfolding linked_def by blast
  with pollerInvD(2) [OF inv] have "old < nextHandle s" unfolding linked_def by blast
  moreover have "intervals ?s1 = AList.delete old (intervals s)"
    using old by (simp add: stopPolling_def clearInterval_def Let_def)
  ultimately show "old \<notin> fst ` set (intervals (startPolling symb expiryDate ival s))"
    using delete_notin_dom [of old "intervals s"] by (simp add: intervals_startPolling image_Un)
qed

text \<open>
  C6: after any sequence of calls of the poller (start, stop, their IV-only variants,
  stopAll) and of runtime events, every key has at most one live interval, and it is the
  one recorded in \<open>pollers\<close>. Calling \<open>startPolling\<close> leaves exactly the new interval
  for its key, recorded in \<open>pollers\<close>, and the interval the key had before is cleared;
  \<open>stopPolling\<close> on a key that is not running changes nothing, and a second
  \<open>stopPolling\<close> changes nothing.
\<close>

theorem one_timer_per_key:
  "(let s = pollerRun events pollerInitial;
        key = symb @ '':'' @ expiryDate;
        s' = startPolling symb expiryDate ival s
    in length (timersOf k s) \<le> 1 \<and>
       (\<forall>t cb. (t, cb) \<in> set (timersOf k s) \<longleftrightarrow>
                map_of (pollers s) k = Some t \<and> map_of (intervals s) t = Some cb) \<and>
       timersOf key s' = [(nextHandle s, ChainTick symb expiryDate)] \<and>
       map_of (pollers s') key = Some (nextHandle s) \<and>
       (\<forall>old. map_of (pollers s) key = Some old \<longrightarrow> old \<notin> fst ` set (intervals s')) \<and>
       (map_of (pollers s) key = None \<longrightarrow> stopPolling symb expiryDate s = s) \<and>
       stopPolling symb expiryDate (stopPolling symb expiryDate s) =
         stopPolling symb expiryDate s)"
proof -
  let ?s = "pollerRun events pollerInitial"
  have inv: "pollerInv ?s" by (rule pollerInv_reachable)
  have idem: "stopPolling symb expiryDate (stopPolling symb expiryDate ?s) =
      stopPolling symb expiryDate ?s"
    by (rule stopPolling_idle) (rule stopPolling_not_running)
  show ?thesis
    unfolding Let_def
    using length_timersOf [OF inv, of k] timersOf_iff [OF inv, of _ _ k]
      restart_replaces_timer [OF inv, where symb = symb and expiryDate = expiryDate and ival = ival]
      pollers_startPolling [of symb expiryDate ival ?s]
      stopPolling_idle [of ?s symb expiryDate] idem
    by blast
qed

theorem one_timer_per_key_witness:
  "timersOf ''NIFTY:2025-11-28''
     (startPolling ''NIFTY'' ''2025-11-28'' 5000
        (pollerRun [StartPolling ''NIFTY'' ''2025-11-28'' 1000] pollerInitial)) =
     [(2, ChainTick ''NIFTY'' ''2025-11-28'')] \<and>
   1 \<notin> fst ` set (intervals
     (startPolling ''NIFTY'' ''2025-11-28'' 5000
        (pollerRun [StartPolling ''NIFTY'' ''2025-11-28'' 1000] pollerInitial))) \<and>
   stopPolling ''NIFTY'' ''2025-11-28'' (pollerRun [] pollerInitial) = pollerRun [] pollerInitial"
proof -
  have run: "pollerRun [StartPolling ''NIFTY'' ''2025-11-28'' 1000] pollerInitial =
      \<lparr>pollers = [(''NIFTY:2025-11-28'', 1)],
       activePolls = [(''NIFTY:2025-11-28'',
                       \<lparr>symbol = ''NIFTY'', expiry = ''2025-11-28'', interval = 1000\<rparr>)],
       intervals = [(1, ChainTick ''NIFTY'' ''2025-11-28'')],
       nextHandle = 2,
       inFlight = [ChainTick ''NIFTY'' ''2025-11-28''],
       published = []\<rparr>"
    by (simp add: pollerRun_def pollerInitial_def startPolling_def stopPolling_def
        setInterval_def beginFetch_def Let_def)
  have idle: "map_of (pollers (pollerRun [] pollerInitial)) (''NIFTY'' @ '':'' @ ''2025-11-28'') = None"
    by (simp add: pollerRun_def pollerInitial_def)
  show ?thesis
    using one_timer_per_key [where k = "''NIFTY:2025-11-28''"
        and events = "[StartPolling ''NIFTY'' ''2025-11-28'' 1000]" and symb = "''NIFTY''"
        and expiryDate = "''2025-11-28''" and ival = 5000]
      one_timer_per_key [where k = "''NIFTY:2025-11-28''" and events = "[]"
        and symb = "''NIFTY''" and expiryDate = "''2025-11-28''" and ival = 5000] idle
    unfolding Let_def run by simp
qed

section \<open>What the status lists\<close>

lemma getActivePolls_IV:
  "getActivePolls (startIVPolling symb ival s) = getActivePolls s"
  "getActivePolls (stopIVPolling symb s) = getActivePolls s"
  by (simp_all add: getActivePolls_def startIVPolling_def stopIVPolling_def setInterval_def
      beginFetch_def clearInterval_def Let_def split: option.splits)

lemma chainInv_stopPolling:
  assumes c: "chainInv s"
  shows "chainInv (stopPolling symb expiryDate s)"
proof (cases "map_of (pollers s) (symb @ '':'' @ expiryDate)")
  case None
  with c show ?thesis by (simp add: stopPolling_def)
next
  case (Some t)
  with c show ?thesis
    by (simp add: chainInv_def stopPolling_def clearInterval_def Let_def dom_delete
        distinct_delete)
qed

lemma chainInv_startPolling:
  assumes c: "chainInv s"
  shows "chainInv (startPolling symb expiryDate ival s)"
proof -
  have c1: "chainInv (stopPolling symb expiryDate s)" using c by (rule chainInv_stopPolling)
  then show ?thesis
    unfolding startPolling_unfold Let_def
    by (simp add: chainInv_def setInterval_def beginFetch_def dom_update distinct_update)
qed

lemma chainInv_pollerStep:
  "chainInv s \<Longrightarrow> \<not> isIVEvent ev \<Longrightarrow> chainInv (pollerStep ev s)"
proof (cases ev)
  case (StartPolling symb expiryDate ival)
  assume "chainInv s"
  with StartPolling show ?thesis by (simp add: chainInv_startPolling)
next
  case (StopPolling symb expiryDate)
  assume "chainInv s"
  with StopPolling show ?thesis by (simp add: chainInv_stopPolling)
next
  case (StartIVPolling symb ival)
  assume "\<not> isIVEvent ev"
  with StartIVPolling show ?thesis by simp
next
  case (StopIVPolling symb)
  assume "\<not> isIVEvent ev"
  with StopIVPolling show ?thesis by simp
next
  case StopAll
  then show ?thesis by (simp add: chainInv_def stopAll_def fold_clearInterval Let_def)
next
  case (TimerFires timerId)
  assume "chainInv s"
  with TimerFires show ?thesis
    by (simp add: chainInv_def timerFires_def beginFetch_def split: option.splits)
next
  case (FetchCompletes i threw)
  assume "chainInv s"
  with FetchCompletes show ?thesis by (simp add: chainInv_def fetchCompletes_def Let_def)
qed

lemma chainInv_pollerRun:
  "chainInv s \<Longrightarrow> list_all (\<lambda>ev. \<not> isIVEvent ev) events \<Longrightarrow> chainInv (pollerRun events s)"
  unfolding pollerRun_def
  by (induction events arbitrary: s) (simp_all add: chainInv_pollerStep)

lemma chainInv_pollerInitial: "chainInv pollerInitial"
  by (simp add: chainInv_def pollerInitial_def)

lemma chainKeysInv_stopPolling:
  assumes c: "chainKeysInv s"
  shows "chainKeysInv (stopPolling symb expiryDate s)"
proof (cases "map_of (pollers s) (symb @ '':'' @ expiryDate)")
  case None
  with c show ?thesis by (simp add: stopPolling_def)
next
  case (Some t)
  with c show ?thesis
    by (simp add: chainKeysInv_def stopPolling_def clearInterval_def Let_def dom_delete
        distinct_delete)
qed

lemma chainKeysInv_startPolling:
  assumes c: "chainKeysInv s"
  shows "chainKeysInv (startPolling symb expiryDate ival s)"
proof -
  have c1: "chainKeysInv (stopPolling symb expiryDate s)"
    using c by (rule chainKeysInv_stopPolling)
  then show ?thesis
    unfolding startPolling_unfold Let_def
    by (simp add: chainKeysInv_def setInterval_def beginFetch_def dom_update distinct_update)
qed

lemma chainKeysInv_stopIVPolling:
  assumes c: "chainKeysInv s"
  shows "chainKeysInv (stopIVPolling symb s)"
proof (cases "map_of (pollers s) (''iv:'' @ symb)")
  case None
  with c show ?thesis by (simp add: stopIVPolling_def)
next
  case (Some t)
  have p: "fst ` set (pollers (stopIVPolling symb s)) = fst ` set (pollers s) - {''iv:'' @ symb}"
    and a: "activePolls (stopIVPolling symb s) = activePolls s"
    using Some by (simp_all add: stopIVPolling_def clearInterval_def Let_def dom_delete)
  show ?thesis
    unfolding chainKeysInv_def p a using c unfolding chainKeysInv_def by blast
qed

lemma chainKeysInv_startIVPolling:
  assumes c: "chainKeysInv s"
  shows "chainKeysInv (startIVPolling symb ival s)"
proof -
  have c1: "chainKeysInv (stopIVPolling symb s)"
    using c by (rule chainKeysInv_stopIVPolling)
  have p: "fst ` set (pollers (startIVPolling symb ival s)) =
      insert (''iv:'' @ symb) (fst ` set (pollers (stopIVPolling symb s)))"
    and a: "activePolls (startIVPolling symb ival s) = activePolls (stopIVPolling symb s)"
    unfolding startIVPolling_unfold Let_def
    by (simp_all add: setInterval_def beginFetch_def dom_update)
  show ?thesis
    unfolding chainKeysInv_def p a using c1 unfolding chainKeysInv_def by blast
qed

lemma chainKeysInv_pollerStep: "chainKeysInv s \<Longrightarrow> chainKeysInv (pollerStep ev s)"
proof (cases ev)
  case (StartPolling symb expiryDate ival)
  assume "chainKeysInv s"
  with StartPolling show ?thesis by (simp add: chainKeysInv_startPolling)
next
  case (StopPolling symb expiryDate)
  assume "chainKeysInv s"
  with StopPolling show ?thesis by (simp add: chainKeysInv_stopPolling)
next
  case (StartIVPolling symb ival)
  assume "chainKeysInv s"
  with StartIVPolling show ?thesis by (simp add: chainKeysInv_startIVPolling)
next
  case (StopIVPolling symb)
  assume "chainKeysInv s"
  with StopIVPolling show ?thesis by (simp add: chainKeysInv_stopIVPolling)
next
  case StopAll
  then show ?thesis by (simp add: chainKeysInv_def stopAll_def fold_clearInterval Let_def)
next
  case (TimerFires timerId)
  assume "chainKeysInv s"
  with TimerFires show ?thesis
    by (simp add: chainKeysInv_def timerFires_def beginFetch_def split: option.splits)
next
  case (FetchCompletes i threw)
  assume "chainKeysInv s"
  with FetchCompletes show ?thesis by (simp add: chainKeysInv_def fetchCompletes_def Let_def)
qed

lemma chainKeysInv_reachable: "chainKeysInv (pollerRun events pollerInitial)"
proof -
  have "\<And>s. chainKeysInv s \<Longrightarrow> chainKeysInv (fold pollerStep events s)"
    by (induction events) (simp_all add: chainKeysInv_pollerStep)
  moreover have "chainKeysInv pollerInitial" by (simp add: chainKeysInv_def pollerInitial_def)
  ultimately show ?thesis unfolding pollerRun_def by blast
qed

lemma running_iff:
  assumes inv: "pollerInv s"
  shows "timersOf key s \<noteq> [] \<longleftrightarrow> key \<in> fst ` set (pollers s)"
proof
  assume "timersOf key s \<noteq> []"
  then obtain x xs where e: "timersOf key s = x # xs" by (cases "timersOf key s") auto
  obtain t cb where x: "x = (t, cb)" by (cases x)
  have "(t, cb) \<in> set (timersOf key s)" unfolding e x by simp
  with timersOf_iff [OF inv] have "map_of (pollers s) key = Some t" by blast
  then have "(key, t) \<in> set (pollers s)" by (rule map_of_SomeD)
  then show "key \<in> fst ` set (pollers s)" by force
next
  assume "key \<in> fst ` set (pollers s)"
  then obtain t where p: "map_of (pollers s) key = Some t"
    by (cases "map_of (pollers s) key") (auto simp add: map_of_eq_None_iff)
  then obtain cb where "map_of (intervals s) t = Some cb"
    using pollerInvD(2) [OF inv] unfolding linked_def by blast
  with p timersOf_iff [OF inv, of t cb key] have "(t, cb) \<in> set (timersOf key s)" by simp
  then show "timersOf key s \<noteq> []" by auto
qed

text \<open>
  C9 (as stated): \<open>getActivePolls\<close> lists every key with an active timer, the keys of
  the IV-only variant included. It does not list those: \<open>startIVPolling\<close> records its
  interval in \<open>pollers\<close> and never writes \<open>activePolls\<close>, which is what
  \<open>getActivePolls\<close> reads. After \<open>startIVPolling('NIFTY')\<close> the key \<open>iv:NIFTY\<close> has a
  live interval and the list is empty.
\<close>

theorem status_counterexample:
  "getActivePolls (pollerRun [StartIVPolling ''NIFTY'' 10000] pollerInitial) = [] \<and>
   pollers (pollerRun [StartIVPolling ''NIFTY'' 10000] pollerInitial) = [(''iv:NIFTY'', 1)] \<and>
   intervals (pollerRun [StartIVPolling ''NIFTY'' 10000] pollerInitial) =
     [(1, IVTick ''NIFTY'')]"
  by (simp add: pollerRun_def pollerInitial_def startIVPolling_def stopIVPolling_def
      setInterval_def beginFetch_def getActivePolls_def Let_def)

text \<open>
  C9 (amended): after any sequence of calls of the poller, of either variant, and of
  runtime events, a key that is not of the form \<open>iv:symbol\<close> is in the list of
  \<open>getActivePolls\<close> exactly when it has a live interval: every running key of the chain
  variant appears, no stopped one does, and none appears twice. The IV-only variant runs
  its interval under the key \<open>iv:symbol\<close> without writing the list: \<open>startIVPolling\<close> and
  \<open>stopIVPolling\<close> leave what \<open>getActivePolls\<close> returns unchanged. A key whose live
  interval is a chain callback is listed whatever its form, and when the IV-only variant
  is not used the list is exactly the keys with a live interval.
\<close>

theorem status_lists_running_chain_keys:
  "(let s = pollerRun events pollerInitial
    in (\<forall>key. (\<forall>symb. key \<noteq> ''iv:'' @ symb) \<longrightarrow>
          (key \<in> set (getActivePolls s) \<longleftrightarrow> timersOf key s \<noteq> [])) \<and>
       distinct (getActivePolls s) \<and>
       (\<forall>key t symb expiryDate.
          map_of (pollers s) key = Some t \<and>
          map_of (intervals s) t = Some (ChainTick symb expiryDate) \<longrightarrow>
          key \<in> set (getActivePolls s)) \<and>
       (list_all (\<lambda>ev. \<not> isIVEvent ev) events \<longrightarrow>
          (\<forall>key. key \<in> set (getActivePolls s) \<longleftrightarrow> timersOf key s \<noteq> [])) \<and>
       getActivePolls (startIVPolling symb' ival s) = getActivePolls s \<and>
       getActivePolls (stopIVPolling symb' s) = getActivePolls s)"
proof -
  let ?s = "pollerRun events pollerInitial"
  have inv: "pollerInv ?s" by (rule pollerInv_reachable)
  have k: "chainKeysInv ?s" by (rule chainKeysInv_reachable)
  have r: "\<And>key. timersOf key ?s \<noteq> [] \<longleftrightarrow> key \<in> fst ` set (pollers ?s)"
    using inv by (rule running_iff)
  have a: "\<forall>key. (\<forall>symb. key \<noteq> ''iv:'' @ symb) \<longrightarrow>
          (key \<in> set (getActivePolls ?s) \<longleftrightarrow> timersOf key ?s \<noteq> [])"
    unfolding r using k by (simp add: chainKeysInv_def getActivePolls_def)
  have d: "distinct (getActivePolls ?s)"
    using k by (simp add: chainKeysInv_def getActivePolls_def)
  have l: "\<forall>key t symb expiryDate.
          map_of (pollers ?s) key = Some t \<and>
          map_of (intervals ?s) t = Some (ChainTick symb expiryDate) \<longrightarrow>
          key \<in> set (getActivePolls ?s)"
    using pollerInvD(3) [OF inv] by (simp add: getActivePolls_def)
  have b: "list_all (\<lambda>ev. \<not> isIVEvent ev) events \<longrightarrow>
          (\<forall>key. key \<in> set (getActivePolls ?s) \<longleftrightarrow> timersOf key ?s \<noteq> [])"
    unfolding r using chainInv_pollerRun [OF chainInv_pollerInitial, of events]
    by (simp add: chainInv_def getActivePolls_def)
  show ?thesis unfolding Let_def using a d l b by (simp only: getActivePolls_IV simp_thms)
qed

theorem status_lists_running_chain_keys_witness:
  "getActivePolls
     (pollerRun [StartPolling ''NIFTY'' ''2025-11-28'' 5000,
                 StartIVPolling ''NIFTY'' 10000,
                 StartPolling ''BANKNIFTY'' ''2025-11-28'' 5000,
                 StopPolling ''NIFTY'' ''2025-11-28''] pollerInitial) =
     [''BANKNIFTY:2025-11-28''] \<and>
   timersOf ''BANKNIFTY:2025-11-28''
     (pollerRun [StartPolling ''NIFTY'' ''2025-11-28'' 5000,
                 StartIVPolling ''NIFTY'' 10000,
                 StartPolling ''BANKNIFTY'' ''2025-11-28'' 5000,
                 StopPolling ''NIFTY'' ''2025-11-28''] pollerInitial) \<noteq> [] \<and>
   timersOf ''NIFTY:2025-11-28''
     (pollerRun [StartPolling ''NIFTY'' ''2025-11-28'' 5000,
                 StartIVPolling ''NIFTY'' 10000,
                 StartPolling ''BANKNIFTY'' ''2025-11-28'' 5000,
                 StopPolling ''NIFTY'' ''2025-11-28''] pollerInitial) = []"
proof -
  let ?events = "[StartPolling ''NIFTY'' ''2025-11-28'' 5000,
                 StartIVPolling ''NIFTY'' 10000,
                 StartPolling ''BANKNIFTY'' ''2025-11-28'' 5000,
                 StopPolling ''NIFTY'' ''2025-11-28'']"
  have g: "getActivePolls (pollerRun ?events pollerInitial) = [''BANKNIFTY:2025-11-28'']"
    by (simp add: pollerRun_def pollerInitial_def startPolling_def stopPolling_def
        startIVPolling_def stopIVPolling_def
        setInterval_def beginFetch_def clearInterval_def getActivePolls_def Let_def)
  have n1: "\<forall>symb. ''BANKNIFTY:2025-11-28'' \<noteq> ''iv:'' @ symb" by simp
  have n2: "\<forall>symb. ''NIFTY:2025-11-28'' \<noteq> ''iv:'' @ symb" by simp
  have th: "\<forall>key. (\<forall>symb. key \<noteq> ''iv:'' @ symb) \<longrightarrow>
      (key \<in> set (getActivePolls (pollerRun ?events pollerInitial)) \<longleftrightarrow>
       timersOf key (pollerRun ?events pollerInitial) \<noteq> [])"
    using status_lists_running_chain_keys [where events = ?events] unfolding Let_def by blast
  from th n1 have b: "''BANKNIFTY:2025-11-28'' \<in> set (getActivePolls (pollerRun ?events pollerInitial)) \<longleftrightarrow>
       timersOf ''BANKNIFTY:2025-11-28'' (pollerRun ?events pollerInitial) \<noteq> []"
    by blast
  from th n2 have n: "''NIFTY:2025-11-28'' \<in> set (getActivePolls (pollerRun ?events pollerInitial)) \<longleftrightarrow>
       timersOf ''NIFTY:2025-11-28'' (pollerRun ?events pollerInitial) \<noteq> []"
    by blast
  from b n show ?thesis unfolding g by simp
qed

section \<open>Stopping a poller while a fetch is in flight\<close>

lemma timersOf_Nil_iff:
  "timersOf key s = [] \<longleftrightarrow> (\<forall>(t, cb) \<in> set (intervals s). tickKey cb \<noteq> key)"
  by (auto simp add: timersOf_def filter_empty_conv)

lemma intervals_stopPolling_subset:
  "set (intervals (stopPolling symb expiryDate s)) \<subseteq> set (intervals s)"
  by (auto simp add: stopPolling_def clearInterval_def Let_def AList.delete_eq
      split: option.splits)

lemma intervals_stopIVPolling_subset:
  "set (intervals (stopIVPolling symb s)) \<subseteq> set (intervals s)"
  by (auto simp add: stopIVPolling_def clearInterval_def Let_def AList.delete_eq
      split: option.splits)

lemma intervals_startIVPolling:
  "intervals (startIVPolling symb ival s) =
     intervals (stopIVPolling symb s) @ [(nextHandle s, IVTick symb)]"
  by (simp add: startIVPolling_def setInterval_def beginFetch_def stopIVPolling_def
      clearInterval_def Let_def split: option.splits)

lemma no_timer_pollerStep:
  assumes none: "timersOf key s = []" and other: "\<not> startsKey key ev"
  shows "timersOf key (pollerStep ev s) = []"
proof (cases ev)
  case (StartPolling symb expiryDate ival)
  with none other intervals_stopPolling_subset [of symb expiryDate s] show ?thesis
    unfolding timersOf_Nil_iff by (auto simp add: intervals_startPolling)
next
  case (StopPolling symb expiryDate)
  with none intervals_stopPolling_subset [of symb expiryDate s] show ?thesis
    unfolding timersOf_Nil_iff by auto
next
  case (StartIVPolling symb ival)
  with none other intervals_stopIVPolling_subset [of symb s] show ?thesis
    unfolding timersOf_Nil_iff by (auto simp add: intervals_startIVPolling)
next
  case (StopIVPolling symb)
  with none intervals_stopIVPolling_subset [of symb s] show ?thesis
    unfolding timersOf_Nil_iff by auto
next
  case StopAll
  with none show ?thesis
    unfolding timersOf_Nil_iff by (auto simp add: stopAll_def fold_clearInterval Let_def)
next
  case (TimerFires timerId)
  with none show ?thesis
    by (simp add: timersOf_def timerFires_def beginFetch_def split: option.splits)
next
  case (FetchCompletes i threw)
  with none show ?thesis by (simp add: timersOf_def fetchCompletes_def Let_def)
qed

lemma flight_startPolling:
  "inFlight (startPolling symb expiryDate ival s) = inFlight s @ [ChainTick symb expiryDate]"
  "published (startPolling symb expiryDate ival s) = published s"
  by (simp_all add: startPolling_def setInterval_def beginFetch_def stopPolling_def
      clearInterval_def Let_def split: option.splits)

lemma flight_startIVPolling:
  "inFlight (startIVPolling symb ival s) = inFlight s @ [IVTick symb]"
  "published (startIVPolling symb ival s) = published s"
  by (simp_all add: startIVPolling_def setInterval_def beginFetch_def stopIVPolling_def
      clearInterval_def Let_def split: option.splits)

lemma flight_stop:
  "inFlight (stopPolling symb expiryDate s) = inFlight s"
  "published (stopPolling symb expiryDate s) = published s"
  "inFlight (stopIVPolling symb s) = inFlight s"
  "published (stopIVPolling symb s) = published s"
  "inFlight (stopAll s) = inFlight s"
  "published (stopAll s) = published s"
  by (simp_all add: stopPolling_def stopIVPolling_def stopAll_def fold_clearInterval
      clearInterval_def Let_def split: option.splits)

lemma length_filter_remove_nth:
  assumes "i < length xs"
  shows "length (filter P (take i xs @ drop (Suc i) xs)) + (if P (xs ! i) then 1 else 0) =
         length (filter P xs)"
proof -
  have "filter P xs = filter P (take i xs @ xs ! i # drop (Suc i) xs)"
    using id_take_nth_drop [OF assms] by simp
  then show ?thesis by simp
qed

lemma budget_fetchCompletes:
  "length (publishedBy key (fetchCompletes i threw s)) +
   length (inFlightOf key (fetchCompletes i threw s)) \<le>
   length (publishedBy key s) + length (inFlightOf key s)"
proof (cases "i < length (inFlight s)")
  case False
  then show ?thesis by (simp add: fetchCompletes_def)
next
  case True
  from length_filter_remove_nth [OF True, of "\<lambda>t. tickKey t = key"] True
  show ?thesis
    by (simp add: fetchCompletes_def publishedBy_def inFlightOf_def Let_def split: if_splits)
qed

lemma budget_pollerStep:
  assumes none: "timersOf key s = []" and other: "\<not> startsKey key ev"
  shows "length (publishedBy key (pollerStep ev s)) + length (inFlightOf key (pollerStep ev s)) \<le>
         length (publishedBy key s) + length (inFlightOf key s)"
proof (cases ev)
  case (StartPolling symb expiryDate ival)
  with other show ?thesis by (simp add: publishedBy_def inFlightOf_def flight_startPolling)
next
  case (StopPolling symb expiryDate)
  then show ?thesis by (simp add: publishedBy_def inFlightOf_def flight_stop)
next
  case (StartIVPolling symb ival)
  with other show ?thesis by (simp add: publishedBy_def inFlightOf_def flight_startIVPolling)
next
  case (StopIVPolling symb)
  then show ?thesis by (simp add: publishedBy_def inFlightOf_def flight_stop)
next
  case StopAll
  then show ?thesis by (simp add: publishedBy_def inFlightOf_def flight_stop)
next
  case (TimerFires timerId)
  show ?thesis
  proof (cases "map_of (intervals s) timerId")
    case None
    with TimerFires show ?thesis by (simp add: timerFires_def)
  next
    case (Some cb)
    then have "(timerId, cb) \<in> set (intervals s)" by (rule map_of_SomeD)
    with none have "tickKey cb \<noteq> key" unfolding timersOf_Nil_iff by auto
    with TimerFires Some show ?thesis
      by (simp add: timerFires_def beginFetch_def publishedBy_def inFlightOf_def)
  qed
next
  case (FetchCompletes i threw)
  then show ?thesis by (simp add: budget_fetchCompletes)
qed

lemma budget_pollerRun:
  assumes "timersOf key s = []" and "list_all (\<lambda>ev. \<not> startsKey key ev) later"
  shows "timersOf key (pollerRun later s) = [] \<and>
         length (publishedBy key (pollerRun later s)) + length (inFlightOf key (pollerRun later s)) \<le>
         length (publishedBy key s) + length (inFlightOf key s)"
  using assms
proof (induction later arbitrary: s)
  case Nil
  then show ?case by (simp add: pollerRun_def)
next
  case (Cons ev later)
  from Cons.prems have o: "\<not> startsKey key ev" and r: "list_all (\<lambda>ev. \<not> startsKey key ev) later"
    by simp_all
  have n: "timersOf key (pollerStep ev s) = []"
    using Cons.prems(1) o by (rule no_timer_pollerStep)
  have b: "length (publishedBy key (pollerStep ev s)) + length (inFlightOf key (pollerStep ev s)) \<le>
         length (publishedBy key s) + length (inFlightOf key s)"
    using Cons.prems(1) o by (rule budget_pollerStep)
  have run: "pollerRun (ev # later) s = pollerRun later (pollerStep ev s)"
    by (simp add: pollerRun_def)
  from Cons.IH [OF n r] b show ?case unfolding run by linarith
qed

text \<open>
  C2 (as stated): after \<open>stopPolling\<close> has returned for a key, nothing is published
  for it, not even by a run whose fetch was in flight. The source has nothing that
  discards such a run: \<open>stopPolling\<close> clears the interval and the two map entries, and
  \<open>fetchAndBroadcast\<close> does not look at them between its fetch and its broadcast. The
  run started by \<open>startPolling\<close> itself is in flight when \<open>stopPolling\<close> follows at
  once, and broadcasts when its fetch completes.
\<close>

theorem stop_then_publish_counterexample:
  "published (pollerRun [StartPolling ''NIFTY'' ''2025-11-28'' 1000,
                         StopPolling ''NIFTY'' ''2025-11-28''] pollerInitial) = [] \<and>
   pollers (pollerRun [StartPolling ''NIFTY'' ''2025-11-28'' 1000,
                       StopPolling ''NIFTY'' ''2025-11-28''] pollerInitial) = [] \<and>
   published (pollerRun [StartPolling ''NIFTY'' ''2025-11-28'' 1000,
                         StopPolling ''NIFTY'' ''2025-11-28'',
                         FetchCompletes 0 False] pollerInitial) =
     [(ChainTick ''NIFTY'' ''2025-11-28'', ''option-chain:NIFTY:2025-11-28'')]"
  by (simp add: pollerRun_def pollerInitial_def startPolling_def stopPolling_def
      setInterval_def beginFetch_def clearInterval_def fetchCompletes_def toUpperCase_def
      upperChar_def Let_def)

text \<open>
  C2 (amended): after \<open>stopPolling\<close> has returned for a key, and until a poller is
  started under that key again, the key has no live interval, so no new run begins for
  it; the runs of the key that were in flight when \<open>stopPolling\<close> was called still
  finish, each broadcasting at most once, so the broadcasts for the key after the stop
  are at most as many as those runs. A run that finishes without an exception always
  broadcasts on its channel.
\<close>

theorem stop_cancels_timer_only:
  "(let key = symb @ '':'' @ expiryDate;
        s' = stopPolling symb expiryDate (pollerRun events pollerInitial);
        s'' = pollerRun later s'
    in timersOf key s' = [] \<and>
       (list_all (\<lambda>ev. \<not> startsKey key ev) later \<longrightarrow>
          timersOf key s'' = [] \<and>
          length (publishedBy key s'') + length (inFlightOf key s'') \<le>
            length (publishedBy key s') + length (inFlightOf key s')) \<and>
       (i < length (inFlight s'') \<longrightarrow>
          published (fetchCompletes i False s'') =
            published s'' @ [(inFlight s'' ! i, tickChannel (inFlight s'' ! i))]))"
proof -
  let ?key = "symb @ '':'' @ expiryDate"
  let ?s' = "stopPolling symb expiryDate (pollerRun events pollerInitial)"
  have inv: "pollerInv ?s'"
    by (rule pollerInv_stopPolling) (rule pollerInv_reachable)
  have none: "timersOf ?key ?s' = []"
    using inv stopPolling_not_running by (rule timersOf_not_running)
  have pub: "i < length (inFlight (pollerRun later ?s')) \<longrightarrow>
          published (fetchCompletes i False (pollerRun later ?s')) =
            published (pollerRun later ?s') @
              [(inFlight (pollerRun later ?s') ! i, tickChannel (inFlight (pollerRun later ?s') ! i))]"
    by (simp add: fetchCompletes_def Let_def)
  show ?thesis
    unfolding Let_def using none budget_pollerRun [OF none, of later] pub by blast
qed

theorem stop_cancels_timer_only_witness:
  "timersOf ''NIFTY:2025-11-28''
     (pollerRun [TimerFires 1, FetchCompletes 0 False]
        (stopPolling ''NIFTY'' ''2025-11-28''
           (pollerRun [StartPolling ''NIFTY'' ''2025-11-28'' 1000] pollerInitial))) = [] \<and>
   length (publishedBy ''NIFTY:2025-11-28''
     (pollerRun [TimerFires 1, FetchCompletes 0 False]
        (stopPolling ''NIFTY'' ''2025-11-28''
           (pollerRun [StartPolling ''NIFTY'' ''2025-11-28'' 1000] pollerInitial)))) +
   length (inFlightOf ''NIFTY:2025-11-28''
     (pollerRun [TimerFires 1, FetchCompletes 0 False]
        (stopPolling ''NIFTY'' ''2025-11-28''
           (pollerRun [StartPolling ''NIFTY'' ''2025-11-28'' 1000] pollerInitial)))) \<le> 1"
proof -
  have s': "stopPolling ''NIFTY'' ''2025-11-28''
           (pollerRun [StartPolling ''NIFTY'' ''2025-11-28'' 1000] pollerInitial) =
      \<lparr>pollers = [], activePolls = [], intervals = [], nextHandle = 2,
       inFlight = [ChainTick ''NIFTY'' ''2025-11-28''], published = []\<rparr>"
    by (simp add: pollerRun_def pollerInitial_def startPolling_def stopPolling_def
        setInterval_def beginFetch_def clearInterval_def Let_def)
  have later: "list_all (\<lambda>ev. \<not> startsKey (''NIFTY'' @ '':'' @ ''2025-11-28'') ev)
      [TimerFires 1, FetchCompletes 0 False]"
    by simp
  have budget: "length (publishedBy (''NIFTY'' @ '':'' @ ''2025-11-28'')
        \<lparr>pollers = [], activePolls = [], intervals = [], nextHandle = 2,
         inFlight = [ChainTick ''NIFTY'' ''2025-11-28''], published = []\<rparr>) +
      length (inFlightOf (''NIFTY'' @ '':'' @ ''2025-11-28'')
        \<lparr>pollers = [], activePolls = [], intervals = [], nextHandle = 2,
         inFlight = [ChainTick ''NIFTY'' ''2025-11-28''], published = []\<rparr>) = 1"
    by (simp add: publishedBy_def inFlightOf_def)
  from stop_cancels_timer_only [where symb = "''NIFTY''" and expiryDate = "''2025-11-28''"
      and events = "[StartPolling ''NIFTY'' ''2025-11-28'' 1000]"
      and later = "[TimerFires 1, FetchCompletes 0 False]" and i = 0] later budget
  show ?thesis unfolding Let_def s' by simp
qed

section \<open>The implied-volatility round trip\<close>

lemma NaN_absorbs:
  "b + NaN = NaN" "NaN + b = NaN" "b * NaN = NaN" "NaN * b = NaN"
  "b / NaN = NaN" "NaN / b = NaN" "b - NaN = NaN" "NaN - b = NaN"
  by (cases b; simp add: minus_jsnum_def)+

lemma normalCDF_NaN: "normalCDF NaN = NaN"
  by (simp add: normalCDF_def Let_def NaN_absorbs)

lemma iv_loop_NaN: "iv_loop n mp S K T r ty NaN = NaN"
proof (induction n)
  case 0
  show ?case by simp
next
  case (Suc n)
  have d: "bs_d1 S K T NaN r = NaN" by (simp add: bs_d1_def NaN_absorbs)
  have p: "blackScholes S K T NaN r ty = NaN"
    by (simp add: blackScholes_def Let_def d normalCDF_NaN NaN_absorbs)
  show ?case
    unfolding iv_loop.simps Let_def p d normalCDF_NaN
    by (simp add: NaN_absorbs Math_max_def Math_min_def Suc.IH)
qed

text \<open>At expiry with the spot at the strike, \<open>d1\<close> is \<open>0 / 0\<close>: the price is \<open>NaN\<close>, both
  tests of the loop fail in every round, and the solver returns \<open>NaN\<close>.\<close>

lemma iv_at_expiry:
  "calculateImpliedVolatility (Num 5) (Num 100) (Num 100) (Num 0) (Num 0.065) Call = NaN"
proof -
  have d: "bs_d1 (Num 100) (Num 100) (Num 0) (Num 0.3) (Num 0.065) = NaN"
    by (simp add: bs_d1_def jsInf_def)
  have p: "blackScholes (Num 100) (Num 100) (Num 0) (Num 0.3) (Num 0.065) Call = NaN"
    unfolding blackScholes_def Let_def d by (simp add: normalCDF_NaN NaN_absorbs)
  have "iv_loop (Suc 99) (Num 5) (Num 100) (Num 100) (Num 0) (Num 0.065) Call (Num 0.3) = NaN"
    unfolding iv_loop.simps Let_def p d normalCDF_NaN
    by (simp add: NaN_absorbs Math_max_def Math_min_def iv_loop_NaN)
  then show ?thesis by (simp add: calculateImpliedVolatility_def)
qed

lemma den: "1 + 0.2316419 * \<bar>x::real\<bar> \<noteq> 0"
proof -
  have "0 \<le> 0.2316419 * \<bar>x\<bar>" by simp
  then show ?thesis by linarith
qed

lemma Num_divide: "y \<noteq> 0 \<Longrightarrow> Num x / Num y = Num (x / y)"
  by simp

lemma Num_divide2: "Num x / Num 2 = Num (x / 2)"
  by simp

lemma Num_minus: "Num x - Num y = Num (x - y)"
  by (simp add: minus_jsnum_def)

lemmas Num_arith =
  plus_jsnum.simps(1) times_jsnum.simps(1) uminus_jsnum.simps(1) abs_jsnum.simps(1)
  less_jsnum.simps(1) Math_exp.simps(1) Num_minus

lemma normalCDF_Num:
  "normalCDF (Num x) = Num (if x > 0 then 1 - cdfTail x else cdfTail x)"
  unfolding normalCDF_def cdfTail_def Let_def
  by (simp only: Num_arith Num_divide [OF den] Num_divide2 if_distrib [of Num]
      split: if_splits)


lemma cdfTail_even: "cdfTail (- x) = cdfTail x"
  by (simp add: cdfTail_def)

lemma horner_le:
  fixes t :: real
  assumes "0 \<le> t" and "t \<le> 1"
  shows "t * (0.3193815 + t * (- 0.3565638 + t * (1.781478 + t * (- 1.821256 + t * 1.330274))))
         \<le> 1.2533137"
proof -
  let ?q = "t * (0.3193815 + t * (- 0.3565638 + t * (1.781478 + t * (- 1.821256 + t * 1.330274))))"
  let ?r = "1.2533137 + 0.9339322 * t + t * t * (1.290496 - 0.490982 * t) +
            1.330274 * (t * t) * (t * t)"
  have id: "1.2533137 - ?q = (1 - t) * ?r" by (simp add: field_simps)
  have "0 \<le> 1.290496 - 0.490982 * t" using assms by simp
  then have a: "0 \<le> t * t * (1.290496 - 0.490982 * t)" using assms by simp
  have b: "0 \<le> 0.9339322 * t" using assms by simp
  have c: "0 \<le> 1.330274 * (t * t) * (t * t)" by simp
  have "0 \<le> 1 - t" using assms by simp
  moreover have "0 \<le> ?r" by (intro add_nonneg_nonneg a b c) simp
  ultimately have "0 \<le> (1 - t) * ?r" by (rule mult_nonneg_nonneg)
  then have "0 \<le> 1.2533137 - ?q" by (simp only: id)
  then show ?thesis by (simp only: diff_ge_0_iff_ge)
qed


lemma cdfTail_le_half: "cdfTail x \<le> 1 / 2"
proof -
  define t :: real where "t = 1 / (1 + 0.2316419 * \<bar>x\<bar>)"
  define d :: real where "d = 0.3989423 * exp (- x * x / 2)"
  define q :: real where
    "q = t * (0.3193815 + t * (- 0.3565638 + t * (1.781478 + t * (- 1.821256 + t * 1.330274))))"
  have t0: "0 \<le> t" and t1: "t \<le> 1" unfolding t_def by simp_all
  have q: "q \<le> 1.2533137" unfolding q_def using t0 t1 by (rule horner_le)
  have "- x * x / 2 \<le> 0" by (simp add: divide_nonpos_pos zero_le_mult_iff mult_nonneg_nonneg)
  then have "exp (- x * x / 2) \<le> 1" by simp
  then have d1: "d \<le> 0.3989423" and d0: "0 \<le> d" unfolding d_def by simp_all
  have c: "cdfTail x = d * q" unfolding cdfTail_def Let_def d_def q_def t_def by (simp only: mult.assoc)
  show ?thesis
  proof (cases "0 \<le> q")
    case True
    have "d * q \<le> 0.3989423 * 1.2533137" using d0 d1 q True by (intro mult_mono) simp_all
    also have "\<dots> \<le> 1 / 2" by simp
    finally show ?thesis unfolding c .
  next
    case False
    then have "d * q \<le> 0" using d0 by (simp add: mult_nonneg_nonpos)
    then show ?thesis unfolding c by simp
  qed
qed

lemma cdfTail_095: "146 / 1000 \<le> cdfTail (95 / 100)"
proof -
  have e: "1 + (- (95 / 100) * (95 / 100) / 2) \<le> exp (- (95 / 100 :: real) * (95 / 100) / 2)"
    by (rule exp_ge_add_one_self)
  define E :: real where "E = exp (- (95 / 100 :: real) * (95 / 100) / 2)"
  have E: "54875 / 100000 \<le> E" using e unfolding E_def by simp
  define c :: real where
    "c = (let t = 1 / (1 + 0.2316419 * \<bar>95 / 100 :: real\<bar>)
          in t * (0.3193815 +
               t * (- 0.3565638 + t * (1.781478 + t * (- 1.821256 + t * 1.330274)))))"
  have c: "67 / 100 \<le> c" unfolding c_def Let_def by simp
  have eq: "cdfTail (95 / 100) = 0.3989423 * E * c"
    unfolding cdfTail_def E_def c_def Let_def by (simp only: mult.assoc)
  have "(0.3989423 * (54875 / 100000)) * (67 / 100) \<le> (0.3989423 * E) * c"
    using E c by (intro mult_mono) simp_all
  moreover have "(146 / 1000 :: real) \<le> (0.3989423 * (54875 / 100000)) * (67 / 100)" by simp
  ultimately show ?thesis unfolding eq by linarith
qed


lemma atm_d1: "0 < v \<Longrightarrow> bs_d1 (Num 100) (Num 100) (Num 1) (Num v) (Num 0) = Num (v / 2)"
  by (simp add: bs_d1_def)

lemma atm_price:
  assumes "0 < v"
  shows "blackScholes (Num 100) (Num 100) (Num 1) (Num v) (Num 0) Call =
         Num (100 - 200 * cdfTail (v / 2))"
proof -
  have d2: "Num (v / 2) - Num v * Math_sqrt (Num 1) = Num (- (v / 2))"
    by (simp add: Num_minus)
  have n1: "normalCDF (Num (v / 2)) = Num (1 - cdfTail (v / 2))"
    using assms by (simp add: normalCDF_Num)
  have n2: "normalCDF (Num (- (v / 2))) = Num (cdfTail (v / 2))"
    using assms by (simp add: normalCDF_Num cdfTail_even)
  show ?thesis
    unfolding blackScholes_def Let_def atm_d1 [OF assms] d2 n1 n2
    by (simp add: Num_minus)
qed

lemma atm_vega:
  assumes "0 < v"
  shows "Num 100 * normalCDF (bs_d1 (Num 100) (Num 100) (Num 1) (Num v) (Num 0)) *
           Math_sqrt (Num 1) = Num (100 * (1 - cdfTail (v / 2)))"
  unfolding atm_d1 [OF assms] using assms by (simp add: normalCDF_Num)

lemma Math_max_Num: "Math_max (Num a) (Num b) = Num (max a b)"
  by (simp add: Math_max_def max_def)

lemma Math_min_Num: "Math_min (Num a) (Num b) = Num (min a b)"
  by (simp add: Math_min_def min_def)

lemma atm_unfold:
  assumes "0 < v"
  shows "iv_loop (Suc n) (Num m) (Num 100) (Num 100) (Num 1) (Num 0) Call (Num v) =
     (if \<bar>m - (100 - 200 * cdfTail (v / 2))\<bar> < 0.0001 then Num v
      else if 100 * (1 - cdfTail (v / 2)) < 0.0001 then Num v
      else iv_loop n (Num m) (Num 100) (Num 100) (Num 1) (Num 0) Call
             (Num (max 0.01
                (min (v + (m - (100 - 200 * cdfTail (v / 2))) /
                          (100 * (1 - cdfTail (v / 2)) * 100)) 5))))"
proof -
  have nz: "100 * (1 - cdfTail (v / 2)) * 100 \<noteq> 0"
    using cdfTail_le_half [of "v / 2"] by simp
  show ?thesis
    unfolding iv_loop.simps Let_def atm_price [OF assms] atm_vega [OF assms]
    by ((simp only: Num_arith Num_divide [OF nz] Math_max_Num Math_min_Num), simp)
qed

lemma atm_loop:
  assumes m: "m \<le> 708 / 10"
  shows "1 / 100 \<le> v \<Longrightarrow> v \<le> 5 \<Longrightarrow>
         \<exists>y. iv_loop n (Num m) (Num 100) (Num 100) (Num 1) (Num 0) Call (Num v) = Num y \<and>
             y \<le> v + 1416 / 100000 * real n"
proof (induction n arbitrary: v)
  case 0
  then show ?case by simp
next
  case (Suc n)
  define c where "c = cdfTail (v / 2)"
  have c: "c \<le> 1 / 2" unfolding c_def by (rule cdfTail_le_half)
  have v0: "0 < v" using Suc.prems by simp
  define k where "k = (m - (100 - 200 * c)) / (100 * (1 - c) * 100)"
  define w where "w = max 0.01 (min (v + k) 5)"
  have w1: "1 / 100 \<le> w" and w2: "w \<le> 5" unfolding w_def by simp_all
  have q: "k \<le> 1416 / 100000"
  proof (cases "0 \<le> m - (100 - 200 * c)")
    case True
    have "(m - (100 - 200 * c)) / (100 * (1 - c) * 100) \<le> (708 / 10) / 5000"
      using True m c by (intro frac_le) simp_all
    then show ?thesis unfolding k_def by simp
  next
    case False
    have "0 < 100 * (1 - c) * 100" using c by simp
    with False have "(m - (100 - 200 * c)) / (100 * (1 - c) * 100) \<le> 0"
      by (intro divide_nonpos_pos) simp_all
    also have "(0 :: real) \<le> 1416 / 100000" by simp
    finally show ?thesis unfolding k_def .
  qed
  have w3: "w \<le> v + 1416 / 100000" unfolding w_def using q Suc.prems by simp
  have weq: "max 0.01 (min (v + (m - (100 - 200 * cdfTail (v / 2))) /
                          (100 * (1 - cdfTail (v / 2)) * 100)) 5) = w"
    by (simp only: w_def k_def c_def)
  from Suc.IH [OF w1 w2] obtain y where
    y: "iv_loop n (Num m) (Num 100) (Num 100) (Num 1) (Num 0) Call (Num w) = Num y"
    and yb: "y \<le> w + 1416 / 100000 * real n" by blast
  have sn: "v + 1416 / 100000 * real (Suc n) = v + 1416 / 100000 + 1416 / 100000 * real n"
    by (simp add: algebra_simps)
  show ?case
    unfolding atm_unfold [OF v0] weq sn
    using y yb w3 by auto
qed

text \<open>
  C1: for S, K, T > 0, any r and sigma in (0.05, 2.0), the solver is to recover sigma
  within 0.5% from the Black-Scholes price at sigma. On the code it does not. The update
  adds \<open>diff / (vega * 100)\<close> with \<open>vega = S * normalCDF(d1) * sqrt(T)\<close>, the cumulative
  distribution where the derivative of the price has the density, and the quotient is
  divided by 100 once more. At S = K = 100, T = 1, r = 0 the price is never negative and
  this vega is at least 50, so against the price at sigma = 1.9, which is at most 70.8,
  a round raises the volatility by at most 0.01416: after the 100 rounds from 0.30 the
  result is at most 171.61 (percent), not within 0.5% of 190 relatively or in
  percentage points.
\<close>

theorem implied_volatility_stalls:
  "\<exists>y. calculateImpliedVolatility
          (blackScholes (Num 100) (Num 100) (Num 1) (Num 1.9) (Num 0) Call)
          (Num 100) (Num 100) (Num 1) (Num 0) Call = Num y \<and>
       y \<le> 171.61 \<and>
       \<not> \<bar>y / 100 - 1.9\<bar> \<le> 0.005 * 1.9 \<and>
       \<not> \<bar>y - 100 * 1.9\<bar> \<le> 0.5"
proof -
  have p: "blackScholes (Num 100) (Num 100) (Num 1) (Num 1.9) (Num 0) Call =
      Num (100 - 200 * cdfTail (95 / 100))"
    using atm_price [of "1.9"] by simp
  have m: "100 - 200 * cdfTail (95 / 100) \<le> 708 / 10"
    using cdfTail_095 by simp
  from atm_loop [OF m, of "0.3" 100] obtain y where
    y: "iv_loop 100 (Num (100 - 200 * cdfTail (95 / 100))) (Num 100) (Num 100) (Num 1) (Num 0)
          Call (Num 0.3) = Num y"
    and yb: "y \<le> 0.3 + 1416 / 100000 * real (100 :: nat)" by auto
  have yb': "y * 100 \<le> 171.6" using yb by simp
  have "toFixed2 (y * 100) \<le> y * 100 + 1 / 200"
    using toFixed2_error [of "y * 100"] by linarith
  with yb' have t: "toFixed2 (y * 100) \<le> 171.61" by simp
  have "calculateImpliedVolatility
          (blackScholes (Num 100) (Num 100) (Num 1) (Num 1.9) (Num 0) Call)
          (Num 100) (Num 100) (Num 1) (Num 0) Call = Num (toFixed2 (y * 100))"
    unfolding calculateImpliedVolatility_def p y by simp
  with t show ?thesis by (intro exI [of _ "toFixed2 (y * 100)"]) simp
qed

end
